theory Spec2Isabelle
  imports Complex_Main
begin

unbundle bit_operations_syntax

section \<open>Numbers of the host language\<close>

text \<open>
  A C++ \<open>double\<close> is modelled by the reals extended with the two infinities and NaN;
  signed zeros are not distinguished. An operation of the library whose exact result need
  not be a binary64 number is followed by the rounding \<open>rd\<close> (to nearest, ties to even):
  the conversion of an \<open>int64_t\<close> to \<open>double\<close> in \<open>_set_bounds\<close> and in the alignment of
  \<open>_add\<close> and \<open>_sub\<close>, and the sum, difference and product of two stored values. The
  other operations are exact on binary64 operands and are left exact: a product or
  quotient by a power of two (\<open>val * shift\<close>, \<open>_val / shift\<close>), a negation, the integer
  part of a double, the conversion of a power of two, and the conversion of the count that
  \<open>_to_signed\<close> and \<open>_to_unsigned\<close> store, which for a binary64 input is a binary64
  number again.
\<close>

datatype double = Fin real | PInf | NInf | NaN

text \<open>
  What the model does not define: a failed \<open>assert\<close> (the file defines \<open>_DEBUG\<close>, so the
  assertions are compiled in and abort), or an operation whose result C++ leaves undefined
  (a conversion to \<open>int64_t\<close> out of range, signed overflow, a shift count out of range).
\<close>

datatype error =
    AssertWidth | AssertFracZero | AssertNonNeg | AssertSignChange
  | AssertOpmode | AssertSat | AssertRounding | AssertFloatMix
  | Undefined

definition ebind :: "error + 'a \<Rightarrow> ('a \<Rightarrow> error + 'b) \<Rightarrow> error + 'b" where
  "ebind m f = (case m of Inl e \<Rightarrow> Inl e | Inr x \<Rightarrow> f x)"

definition c_assert :: "bool \<Rightarrow> error \<Rightarrow> error + unit" where
  "c_assert c e = (if c then Inr () else Inl e)"

subsection \<open>Comparison and arithmetic on doubles\<close>

fun dless :: "double \<Rightarrow> double \<Rightarrow> bool" where
  "dless (Fin a) (Fin b) = (a < b)"
| "dless (Fin a) PInf = True"
| "dless NInf (Fin b) = True"
| "dless NInf PInf = True"
| "dless _ _ = False"

definition deq :: "double \<Rightarrow> double \<Rightarrow> bool" where
  "deq x y = (x = y \<and> x \<noteq> NaN)"

definition dle :: "double \<Rightarrow> double \<Rightarrow> bool" where
  "dle x y = (dless x y \<or> deq x y)"

fun dneg :: "double \<Rightarrow> double" where
  "dneg (Fin a) = Fin (- a)"
| "dneg PInf = NInf"
| "dneg NInf = PInf"
| "dneg NaN = NaN"

definition inf_of_sign :: "real \<Rightarrow> double" where
  "inf_of_sign s = (if 0 < s then PInf else if s < 0 then NInf else NaN)"

fun dmul :: "double \<Rightarrow> double \<Rightarrow> double" where
  "dmul (Fin a) (Fin b) = Fin (a * b)"
| "dmul (Fin a) PInf = inf_of_sign a"
| "dmul (Fin a) NInf = inf_of_sign (- a)"
| "dmul PInf (Fin b) = inf_of_sign b"
| "dmul NInf (Fin b) = inf_of_sign (- b)"
| "dmul PInf PInf = PInf"
| "dmul PInf NInf = NInf"
| "dmul NInf PInf = NInf"
| "dmul NInf NInf = PInf"
| "dmul _ _ = NaN"

fun dadd :: "double \<Rightarrow> double \<Rightarrow> double" where
  "dadd (Fin a) (Fin b) = Fin (a + b)"
| "dadd (Fin a) PInf = PInf"
| "dadd (Fin a) NInf = NInf"
| "dadd PInf (Fin b) = PInf"
| "dadd NInf (Fin b) = NInf"
| "dadd PInf PInf = PInf"
| "dadd NInf NInf = NInf"
| "dadd _ _ = NaN"

definition dsub :: "double \<Rightarrow> double \<Rightarrow> double" where
  "dsub x y = dadd x (dneg y)"

fun ddiv :: "double \<Rightarrow> double \<Rightarrow> double" where
  "ddiv (Fin a) (Fin b) = (if b = 0 then inf_of_sign a else Fin (a / b))"
| "ddiv (Fin a) PInf = Fin 0"
| "ddiv (Fin a) NInf = Fin 0"
| "ddiv PInf (Fin b) = (if b < 0 then NInf else PInf)"
| "ddiv NInf (Fin b) = (if b < 0 then PInf else NInf)"
| "ddiv _ _ = NaN"

fun fabs :: "double \<Rightarrow> double" where
  "fabs (Fin a) = Fin \<bar>a\<bar>"
| "fabs PInf = PInf"
| "fabs NInf = PInf"
| "fabs NaN = NaN"

text \<open>
  Rounding to binary64, to nearest with ties to even. \<open>ilog2 x\<close> is the integer part of
  the binary logarithm of a positive \<open>x\<close>, found by halving or doubling; the numbers of
  steps, 1024 and 1100, reach beyond the exponents of binary64, where the result is an
  infinity or a multiple of the least subnormal whatever the exponent. \<open>ulp_exp x\<close> is the
  exponent of the unit in the last place at the magnitude \<open>x\<close> (53 significant bits, the
  subnormal unit \<open>2 ^ - 1074\<close> at the bottom), and a result of magnitude \<open>2 ^ 1024\<close> or more
  is an infinity.
\<close>

primrec halvings :: "nat \<Rightarrow> real \<Rightarrow> int" where
  "halvings 0 x = 0"
| "halvings (Suc n) x = (if 2 \<le> x then 1 + halvings n (x / 2) else 0)"

primrec doublings :: "nat \<Rightarrow> real \<Rightarrow> int" where
  "doublings 0 x = 0"
| "doublings (Suc n) x = (if x < 1 then 1 + doublings n (2 * x) else 0)"

definition ilog2 :: "real \<Rightarrow> int" where
  "ilog2 x = (if 1 \<le> x then halvings 1024 x else - doublings 1100 x)"

definition round_even :: "real \<Rightarrow> int" where
  "round_even x =
     (let f = \<lfloor>x\<rfloor>; r = x - of_int f
      in if r < 1 / 2 then f else if 1 / 2 < r then f + 1 else if even f then f else f + 1)"

definition ulp_exp :: "real \<Rightarrow> int" where
  "ulp_exp x = max (ilog2 x - 52) (- 1074)"

definition rd :: "real \<Rightarrow> double" where
  "rd x =
     (if x = 0 then Fin 0
      else let e = ulp_exp \<bar>x\<bar>;
               y = of_int (round_even (\<bar>x\<bar> / 2 powi e)) * 2 powi e
           in if 2 ^ 1024 \<le> y then inf_of_sign x else Fin (sgn x * y))"

text \<open>The binary64 result of an operation whose exact result is \<open>x\<close>.\<close>

definition binary64 :: "double \<Rightarrow> double" where
  "binary64 x = (case x of Fin a \<Rightarrow> rd a | PInf \<Rightarrow> PInf | NInf \<Rightarrow> NInf | NaN \<Rightarrow> NaN)"

text \<open>\<open>round\<close> of \<open>cmath\<close>: to the nearest integer, halfway cases away from zero.\<close>

definition round_half_away :: "real \<Rightarrow> int" where
  "round_half_away x = (if 0 \<le> x then \<lfloor>x + 1 / 2\<rfloor> else - \<lfloor>- x + 1 / 2\<rfloor>)"

definition c_round :: "real \<Rightarrow> real" where
  "c_round x = of_int (round_half_away x)"

fun round_d :: "double \<Rightarrow> double" where
  "round_d (Fin a) = Fin (c_round a)"
| "round_d x = x"

subsection \<open>64-bit and 32-bit signed integers\<close>

definition in_int64 :: "int \<Rightarrow> bool" where
  "in_int64 n = (- (2 ^ 63) \<le> n \<and> n < 2 ^ 63)"

text \<open>Signed arithmetic that leaves the range is undefined.\<close>

definition chk64 :: "int \<Rightarrow> error + int" where
  "chk64 n = (if in_int64 n then Inr n else Inl Undefined)"

text \<open>
  \<open>(int64_t) x\<close> for a double \<open>x\<close>: truncation towards zero, undefined when the truncated
  value is not an \<open>int64_t\<close> (also for the infinities and NaN).
\<close>

definition trunc :: "real \<Rightarrow> int" where
  "trunc x = (if 0 \<le> x then \<lfloor>x\<rfloor> else \<lceil>x\<rceil>)"

fun to_int64 :: "double \<Rightarrow> error + int" where
  "to_int64 (Fin a) = chk64 (trunc a)"
| "to_int64 _ = Inl Undefined"

text \<open>
  \<open>E1 << E2\<close> on a signed operand of \<open>w\<close> bits: the value congruent to \<open>E1 * 2 ^ E2\<close>
  modulo \<open>2 ^ w\<close> (what C++20 defines and every mainstream compiler computes), undefined
  for a count outside \<open>0 .. w - 1\<close>.
\<close>

definition wrap :: "nat \<Rightarrow> int \<Rightarrow> int" where
  "wrap w n = (n + 2 ^ (w - 1)) mod 2 ^ w - 2 ^ (w - 1)"

definition shl64 :: "int \<Rightarrow> int \<Rightarrow> error + int" where
  "shl64 x k = (if 0 \<le> k \<and> k < 64 then Inr (wrap 64 (x * 2 ^ nat k)) else Inl Undefined)"

definition shl32 :: "int \<Rightarrow> int \<Rightarrow> error + int" where
  "shl32 x k = (if 0 \<le> k \<and> k < 32 then Inr (wrap 32 (x * 2 ^ nat k)) else Inl Undefined)"

text \<open>\<open>a % b\<close>: the remainder of the division that truncates towards zero.\<close>

definition c_rem :: "int \<Rightarrow> int \<Rightarrow> int" where
  "c_rem a b = sgn a * (\<bar>a\<bar> mod \<bar>b\<bar>)"

text \<open>
  The macro \<open>fastfloor(x) = ((double)(int64_t)x - (x < (double)(int64_t)x))\<close>.
\<close>

definition fastfloor :: "double \<Rightarrow> error + double" where
  "fastfloor x =
     ebind (to_int64 x) (\<lambda>t.
       Inr (dsub (Fin (of_int t)) (if dless x (Fin (of_int t)) then Fin 1 else Fin 0)))"

definition fastmax :: "int \<Rightarrow> int \<Rightarrow> int" where
  "fastmax a b = (if a > b then a else b)"

definition fastmin :: "int \<Rightarrow> int \<Rightarrow> int" where
  "fastmin a b = (if a < b then a else b)"

text \<open>\<open>floor(log2(n))\<close> for a positive integer \<open>n\<close>.\<close>

fun floor_log2 :: "nat \<Rightarrow> nat" where
  "floor_log2 n = (if n < 2 then 0 else Suc (floor_log2 (n div 2)))"

declare floor_log2.simps [simp del]

section \<open>The configuration tuple and the fixed-point object\<close>

datatype dtype = d_INT | d_UINT | d_FXP | d_UFXP | d_FLOAT

datatype modes = FULL | FIXEDFRAC | FIXEDWIDTH | MANUAL

record tuple =
  intg :: int
  frac :: int
  type :: dtype
  opmode :: modes
  sat :: bool
  rounding :: bool

text \<open>Class \<open>FXP\<close>; the member \<open>_val\<close> is \<open>raw_val\<close> here.\<close>

record FXP = tuple +
  raw_val :: double
  pinf :: double
  ninf :: double
  shift :: double
  full :: int
  half :: int

text \<open>
  \<open>FXP(){}\<close> leaves every member indeterminate; the constructor that takes a value
  assigns each of them before it is read, so the values chosen here are never seen.
\<close>

definition FXP_default :: FXP where
  "FXP_default =
     \<lparr>intg = 0, frac = 0, type = d_INT, opmode = FULL, sat = False, rounding = False,
      raw_val = Fin 0, pinf = Fin 0, ninf = Fin 0, shift = Fin 0, full = 0, half = 0\<rparr>"

definition read_template :: "FXP \<Rightarrow> 'a tuple_scheme \<Rightarrow> FXP" where
  "read_template this templ =
     this\<lparr>intg := intg templ, frac := frac templ, type := type templ,
          opmode := opmode templ, sat := sat templ, rounding := rounding templ\<rparr>"

definition is_unsigned :: "dtype \<Rightarrow> bool" where
  "is_unsigned t = (t = d_UINT \<or> t = d_UFXP)"

subsection \<open>Bounds\<close>

text \<open>
  \<open>_set_bounds\<close>, in the order of its assignments: \<open>shift\<close>; \<open>full\<close> and \<open>half\<close>;
  \<open>pinf\<close> and \<open>ninf\<close>.
\<close>

definition full_half :: "int \<Rightarrow> int \<Rightarrow> dtype \<Rightarrow> error + int \<times> int" where
  "full_half i f t =
     (if is_unsigned t
      then ebind (shl64 1 (i + f)) (\<lambda>fu. Inr (fu, 0))
      else ebind (shl64 1 (i + f + 1)) (\<lambda>fu. ebind (shl64 1 (i + f)) (\<lambda>h. Inr (fu, h))))"

definition limits :: "int \<Rightarrow> int \<Rightarrow> dtype \<Rightarrow> double \<Rightarrow> error + double \<times> double" where
  "limits i f t s =
     (if t = d_FLOAT then Inr (PInf, NInf)
      else if i < 31 \<and> f < 31 then
        ebind (shl64 1 (i + f)) (\<lambda>p.
        ebind (chk64 (p - 1)) (\<lambda>p1.
        ebind (if is_unsigned t then Inr (Fin 0)
               else ebind (shl64 1 (i + f)) (\<lambda>q. Inr (ddiv (dneg (Fin (of_int q))) s))) (\<lambda>n.
          Inr (ddiv (rd (of_int p1)) s, n))))
      else
        ebind (shl64 1 i) (\<lambda>p.
        ebind (chk64 (p - 1)) (\<lambda>p1.
        ebind (if is_unsigned t then Inr (Fin 0)
               else ebind (shl64 1 i) (\<lambda>q. Inr (dneg (Fin (of_int q))))) (\<lambda>n.
          Inr (rd (of_int p1), n)))))"

definition set_bounds :: "FXP \<Rightarrow> error + FXP" where
  "set_bounds this =
     ebind (shl64 1 (frac this)) (\<lambda>s.
     ebind (full_half (intg this) (frac this) (type this)) (\<lambda>(fu, h).
     ebind (limits (intg this) (frac this) (type this) (Fin (of_int s))) (\<lambda>(p, n).
       Inr (this\<lparr>shift := Fin (of_int s), full := fu, half := h, pinf := p, ninf := n\<rparr>))))"

subsection \<open>Quantization\<close>

definition round_or_floor :: "bool \<Rightarrow> double \<Rightarrow> error + double" where
  "round_or_floor r temp = (if r then Inr (round_d temp) else fastfloor temp)"

text \<open>The integer that rounding or flooring yields, when it yields one.\<close>

definition rnd :: "bool \<Rightarrow> real \<Rightarrow> int" where
  "rnd r x = (if r then round_half_away x else \<lfloor>x\<rfloor>)"

definition to_signed :: "FXP \<Rightarrow> double \<Rightarrow> error + FXP" where
  "to_signed this v =
     ebind (round_or_floor (rounding this) (dmul v (shift this))) (\<lambda>temp.
     ebind (to_int64 temp) (\<lambda>t.
     ebind (chk64 (t + half this)) (\<lambda>u.
     ebind (let tempint = c_rem u (full this)
            in if tempint < 0 then chk64 (tempint + full this) else Inr tempint) (\<lambda>tempint.
     ebind (chk64 (tempint - half this)) (\<lambda>r.
       Inr (this\<lparr>raw_val := Fin (of_int r)\<rparr>))))))"

definition to_unsigned :: "FXP \<Rightarrow> double \<Rightarrow> error + FXP" where
  "to_unsigned this v =
     ebind (round_or_floor (rounding this) (dmul v (shift this))) (\<lambda>temp.
     ebind (to_int64 temp) (\<lambda>t.
     ebind (let tempint = c_rem t (full this)
            in if tempint < 0 then chk64 (tempint + full this) else Inr tempint) (\<lambda>tempint.
       Inr (this\<lparr>raw_val := Fin (of_int tempint)\<rparr>))))"

text \<open>The saturation step of \<open>_set_val\<close> (the other branch only logs).\<close>

definition saturate :: "FXP \<Rightarrow> double \<Rightarrow> double" where
  "saturate this v =
     (if sat this then
        (let v1 = (if dless (pinf this) v then pinf this else v)
         in if dless v1 (ninf this) then ninf this else v1)
      else v)"

text \<open>The two tests for the reserved inputs \<open>inf\<close> and \<open>-inf\<close>.\<close>

definition map_inf :: "FXP \<Rightarrow> double \<Rightarrow> double" where
  "map_inf this v0 =
     (let v1 = (if deq v0 PInf then pinf this else v0)
      in if deq v1 NInf then ninf this else v1)"

text \<open>The dispatch on the kind, with its assertions.\<close>

definition store :: "FXP \<Rightarrow> double \<Rightarrow> error + FXP" where
  "store this v =
     (case type this of
        d_FLOAT \<Rightarrow> Inr (this\<lparr>raw_val := v\<rparr>)
      | d_INT \<Rightarrow>
          ebind (c_assert (frac this = 0) AssertFracZero) (\<lambda>_. to_signed this v)
      | d_UINT \<Rightarrow>
          ebind (c_assert (frac this = 0) AssertFracZero) (\<lambda>_.
          ebind (c_assert (dle (Fin 0) v) AssertNonNeg) (\<lambda>_. to_unsigned this v))
      | d_FXP \<Rightarrow> to_signed this v
      | d_UFXP \<Rightarrow>
          ebind (c_assert (dle (Fin 0) v) AssertNonNeg) (\<lambda>_. to_unsigned this v))"

text \<open>\<open>_set_val\<close>: \<open>tempval\<close> keeps the input for the final assertion on the sign.\<close>

definition set_val :: "FXP \<Rightarrow> double \<Rightarrow> error + FXP" where
  "set_val this v0 =
     (let tempval = v0 in
      ebind (c_assert (intg this + frac this < 63) AssertWidth) (\<lambda>_.
      ebind (store this (saturate this (map_inf this v0))) (\<lambda>this.
      ebind (c_assert (dle (Fin 0) (dmul tempval (raw_val this))) AssertSignChange) (\<lambda>_.
        Inr this))))"

text \<open>The constructor \<open>FXP(double val, TYPE templ)\<close>.\<close>

definition FXP_new :: "double \<Rightarrow> 'a tuple_scheme \<Rightarrow> error + FXP" where
  "FXP_new v templ = ebind (set_bounds (read_template FXP_default templ)) (\<lambda>this. set_val this v)"

definition val :: "FXP \<Rightarrow> double" where
  "val this = (if type this = d_FLOAT then raw_val this else ddiv (raw_val this) (shift this))"

definition copy :: "FXP \<Rightarrow> error + FXP" where
  "copy this = FXP_new (val this) this"

section \<open>Operators\<close>

definition op_neg :: "FXP \<Rightarrow> error + FXP" where
  "op_neg a = FXP_new (dneg (val a)) a"

definition op_eq :: "FXP \<Rightarrow> FXP \<Rightarrow> bool" where
  "op_eq a b = deq (val a) (val b)"

definition mk_tuple :: "int \<Rightarrow> int \<Rightarrow> dtype \<Rightarrow> modes \<Rightarrow> bool \<Rightarrow> bool \<Rightarrow> tuple" where
  "mk_tuple i f t m s r = \<lparr>intg = i, frac = f, type = t, opmode = m, sat = s, rounding = r\<rparr>"

definition op_shr :: "FXP \<Rightarrow> int \<Rightarrow> error + FXP" where
  "op_shr a b =
     ebind (shl32 1 b) (\<lambda>p.
       FXP_new (ddiv (val a) (Fin (of_int p)))
         (mk_tuple (fastmin (intg a - b) 0) (frac a + b) (type a) (opmode a) (sat a) (rounding a)))"

definition op_shl :: "FXP \<Rightarrow> int \<Rightarrow> error + FXP" where
  "op_shl a b =
     ebind (shl32 1 b) (\<lambda>p.
       FXP_new (dmul (val a) (Fin (of_int p)))
         (mk_tuple (intg a + b) (fastmax (frac a - b) 0) (type a) (opmode a) (sat a) (rounding a)))"


subsection \<open>Width inference and the value-with-value operators\<close>

definition is_intkind :: "dtype \<Rightarrow> bool" where
  "is_intkind t = (t = d_UINT \<or> t = d_INT)"

definition is_fxpkind :: "dtype \<Rightarrow> bool" where
  "is_fxpkind t = (t = d_UFXP \<or> t = d_FXP)"

text \<open>
  The fractional width of the \<open>FIXEDFRAC\<close> and \<open>FIXEDWIDTH\<close> branches, which is the same
  text in \<open>_add\<close>, \<open>_sub\<close> and \<open>_mul\<close>.
\<close>

definition frac_fixed :: "FXP \<Rightarrow> FXP \<Rightarrow> int" where
  "frac_fixed a b =
     (if is_intkind (type a) \<and> is_fxpkind (type b) then frac b
      else if is_intkind (type b) \<and> is_fxpkind (type a) then frac a
      else fastmin (frac a) (frac b))"

text \<open>Result kind of \<open>_add\<close> and \<open>_mul\<close> for operands that are not both \<open>d_FLOAT\<close>.\<close>

definition type_addmul :: "dtype \<Rightarrow> dtype \<Rightarrow> dtype" where
  "type_addmul ta tb =
     (if ta = d_UINT \<and> tb = d_UINT then d_UINT
      else if (ta = d_UINT \<and> tb = d_INT) \<or> (ta = d_INT \<and> tb = d_UINT) then d_INT
      else if (ta = d_UINT \<and> tb = d_UFXP) \<or> (ta = d_UFXP \<and> tb = d_UINT) then d_UFXP
      else d_FXP)"

definition type_sub :: "dtype \<Rightarrow> dtype \<Rightarrow> dtype" where
  "type_sub ta tb =
     (if ta = d_UINT \<and> tb = d_UINT then d_INT
      else if (ta = d_UINT \<and> tb = d_INT) \<or> (ta = d_INT \<and> tb = d_UINT) then d_INT
      else if (ta = d_UINT \<and> tb = d_UFXP) \<or> (ta = d_UFXP \<and> tb = d_UINT) then d_FXP
      else d_FXP)"

text \<open>\<open>double(((int64_t) x) << k)\<close>, the alignment of the operand of smaller fraction.\<close>

definition align :: "double \<Rightarrow> int \<Rightarrow> error + double" where
  "align x k = ebind (to_int64 x) (\<lambda>n. ebind (shl64 n k) (\<lambda>m. Inr (rd (of_int m))))"

definition add_sub_width :: "FXP \<Rightarrow> FXP \<Rightarrow> modes \<Rightarrow> int \<times> int" where
  "add_sub_width a b m =
     (case m of
        FULL \<Rightarrow> (fastmax (intg a) (intg b) + 1, fastmax (frac a) (frac b))
      | FIXEDFRAC \<Rightarrow> (fastmax (intg a) (intg b) + 1, frac_fixed a b)
      | FIXEDWIDTH \<Rightarrow> (fastmax (intg a) (intg b), frac_fixed a b)
      | MANUAL \<Rightarrow> (0, 0))"

definition add5 :: "FXP \<Rightarrow> FXP \<Rightarrow> modes \<Rightarrow> bool \<Rightarrow> bool \<Rightarrow> error + FXP" where
  "add5 a b m s r =
     ebind (if type a = d_FLOAT \<and> type b = d_FLOAT
            then Inr (d_FLOAT, binary64 (dadd (raw_val a) (raw_val b)))
            else if frac a \<ge> frac b
            then ebind (align (raw_val b) (frac a - frac b)) (\<lambda>x.
                   Inr (type_addmul (type a) (type b),
                        ddiv (binary64 (dadd (raw_val a) x)) (shift a)))
            else ebind (align (raw_val a) (frac b - frac a)) (\<lambda>x.
                   Inr (type_addmul (type a) (type b),
                        ddiv (binary64 (dadd (raw_val b) x)) (shift b))))
       (\<lambda>(t, tempval).
          case add_sub_width a b m of (i, f) \<Rightarrow> FXP_new tempval (mk_tuple i f t m s r))"

definition sub5 :: "FXP \<Rightarrow> FXP \<Rightarrow> modes \<Rightarrow> bool \<Rightarrow> bool \<Rightarrow> error + FXP" where
  "sub5 a b m s r =
     ebind (if type a = d_FLOAT \<and> type b = d_FLOAT
            then Inr (d_FLOAT, binary64 (dsub (raw_val a) (raw_val b)))
            else if frac a \<ge> frac b
            then ebind (align (raw_val b) (frac a - frac b)) (\<lambda>x.
                   Inr (type_sub (type a) (type b),
                        ddiv (binary64 (dsub (raw_val a) x)) (shift a)))
            else ebind (align (raw_val a) (frac b - frac a)) (\<lambda>x.
                   Inr (type_sub (type a) (type b),
                        ddiv (binary64 (dadd (dneg (raw_val b)) x)) (shift b))))
       (\<lambda>(t, tempval).
          case add_sub_width a b m of (i, f) \<Rightarrow> FXP_new tempval (mk_tuple i f t m s r))"

definition mul_width :: "FXP \<Rightarrow> FXP \<Rightarrow> modes \<Rightarrow> int \<times> int" where
  "mul_width a b m =
     (case m of
        FULL \<Rightarrow> (intg a + intg b, frac a + frac b)
      | FIXEDFRAC \<Rightarrow> (intg a + intg b, frac_fixed a b)
      | FIXEDWIDTH \<Rightarrow> (fastmax (intg a) (intg b), frac_fixed a b)
      | MANUAL \<Rightarrow> (0, 0))"

definition mul5 :: "FXP \<Rightarrow> FXP \<Rightarrow> modes \<Rightarrow> bool \<Rightarrow> bool \<Rightarrow> error + FXP" where
  "mul5 a b m s r =
     ebind (if type a = d_FLOAT \<and> type b = d_FLOAT
            then Inr (d_FLOAT, binary64 (dmul (raw_val a) (raw_val b)))
            else ebind (shl64 1 (frac a + frac b)) (\<lambda>p.
                   Inr (type_addmul (type a) (type b),
                        ddiv (binary64 (dmul (raw_val a) (raw_val b))) (Fin (of_int p)))))
       (\<lambda>(t, tempval).
          case mul_width a b m of (i, f) \<Rightarrow> FXP_new tempval (mk_tuple i f t m s r))"

text \<open>The assertions shared by the two-argument \<open>_add\<close>, \<open>_sub\<close> and \<open>_mul\<close>.\<close>

definition check_operands :: "FXP \<Rightarrow> FXP \<Rightarrow> error + unit" where
  "check_operands a b =
     ebind (c_assert (opmode a = opmode b) AssertOpmode) (\<lambda>_.
     ebind (c_assert (sat a = sat b) AssertSat) (\<lambda>_.
     ebind (c_assert (rounding a = rounding b) AssertRounding) (\<lambda>_.
       c_assert ((type a = d_FLOAT \<and> type b = d_FLOAT) \<or> (type a \<noteq> d_FLOAT \<and> type b \<noteq> d_FLOAT))
         AssertFloatMix)))"

definition add :: "FXP \<Rightarrow> FXP \<Rightarrow> error + FXP" where
  "add a b = ebind (check_operands a b) (\<lambda>_. add5 a b (opmode a) (sat a) (rounding a))"

definition sub :: "FXP \<Rightarrow> FXP \<Rightarrow> error + FXP" where
  "sub a b = ebind (check_operands a b) (\<lambda>_. sub5 a b (opmode a) (sat a) (rounding a))"

definition mul :: "FXP \<Rightarrow> FXP \<Rightarrow> error + FXP" where
  "mul a b = ebind (check_operands a b) (\<lambda>_. mul5 a b (opmode a) (sat a) (rounding a))"

subsection \<open>Operators with an integer literal\<close>

text \<open>
  The literal is a 32-bit \<open>int\<close>; \<open>1 + int(fastfloor(log2(n)))\<close> for a positive \<open>n\<close> is
  \<open>1 + floor_log2 n\<close>. Negating the least \<open>int\<close> is undefined.
\<close>

definition lit_width :: "int \<Rightarrow> int" where
  "lit_width n = 1 + int (floor_log2 (nat n))"

definition op_add_int :: "FXP \<Rightarrow> int \<Rightarrow> error + FXP" where
  "op_add_int a b =
     (if b = 0 then copy a
      else if b > 0 then
        (if type a = d_FLOAT
         then ebind (FXP_new (Fin (of_int b))
                (mk_tuple (lit_width b) 0 d_FLOAT (opmode a) (sat a) (rounding a))) (add a)
         else ebind (FXP_new (Fin (of_int b))
                (mk_tuple (lit_width b) 0 d_UINT (opmode a) (sat a) (rounding a))) (add a))
      else if b = - (2 ^ 31) then Inl Undefined
      else
        (if type a = d_FLOAT
         then ebind (FXP_new (Fin (of_int b))
                (mk_tuple (lit_width (- b)) 0 d_FLOAT (opmode a) (sat a) (rounding a))) (add a)
         else ebind (FXP_new (Fin (of_int b))
                (mk_tuple (lit_width (- b)) 0 d_INT (opmode a) (sat a) (rounding a))) (add a)))"

definition op_sub_int :: "FXP \<Rightarrow> int \<Rightarrow> error + FXP" where
  "op_sub_int a b =
     (if b = 0 then copy a
      else if b > 0 then
        (if type a = d_FLOAT
         then ebind (FXP_new (Fin (of_int b))
                (mk_tuple (lit_width b) 0 d_FLOAT (opmode a) (sat a) (rounding a))) (sub a)
         else ebind (FXP_new (Fin (of_int b))
                (mk_tuple (lit_width b) 0 d_UINT (opmode a) (sat a) (rounding a))) (sub a))
      else if b = - (2 ^ 31) then Inl Undefined
      else
        (if type a = d_FLOAT
         then ebind (FXP_new (Fin (of_int b))
                (mk_tuple (lit_width (- b)) 0 d_FLOAT (opmode a) (sat a) (rounding a))) (sub a)
         else ebind (FXP_new (Fin (of_int b))
                (mk_tuple (lit_width (- b)) 0 d_INT (opmode a) (sat a) (rounding a))) (sub a)))"

definition op_mul_int :: "FXP \<Rightarrow> int \<Rightarrow> error + FXP" where
  "op_mul_int a b =
     (if b = 0 then FXP_new (Fin 0) a
      else if b > 0 then
        (if b AND (b - 1) = 0 then op_shl a (int (floor_log2 (nat b)))
         else if type a = d_FLOAT
         then ebind (FXP_new (Fin (of_int b))
                (mk_tuple (lit_width b) 0 d_FLOAT (opmode a) (sat a) (rounding a))) (mul a)
         else ebind (FXP_new (Fin (of_int b))
                (mk_tuple (lit_width b) 0 d_UINT (opmode a) (sat a) (rounding a))) (mul a))
      else if b = - (2 ^ 31) then Inl Undefined
      else
        (if (- b) AND (- b - 1) = 0 then op_shl a (int (floor_log2 (nat (- b))))
         else if type a = d_FLOAT
         then ebind (FXP_new (Fin (of_int b))
                (mk_tuple (lit_width (- b)) 0 d_FLOAT (opmode a) (sat a) (rounding a))) (mul a)
         else ebind (FXP_new (Fin (of_int b))
                (mk_tuple (lit_width (- b)) 0 d_FLOAT (opmode a) (sat a) (rounding a))) (mul a)))"


section \<open>Objects of the demonstration driver\<close>

text \<open>
  \<open>var_4\<close>, \<open>int_1\<close> and \<open>uint_1\<close> of \<open>test_fixedpointlib.cpp\<close>, as the constructor
  leaves them.
\<close>

definition var_4 :: FXP where
  "var_4 =
     \<lparr>intg = 7, frac = 1, type = d_FXP, opmode = FIXEDFRAC, sat = False, rounding = False,
      raw_val = Fin 79, pinf = Fin (255 / 2), ninf = Fin (- 128), shift = Fin 2,
      full = 512, half = 256\<rparr>"

definition int_1 :: FXP where
  "int_1 =
     \<lparr>intg = 3, frac = 0, type = d_INT, opmode = FIXEDFRAC, sat = False, rounding = False,
      raw_val = Fin (- 3), pinf = Fin 7, ninf = Fin (- 8), shift = Fin 1,
      full = 16, half = 8\<rparr>"

definition uint_1 :: FXP where
  "uint_1 =
     \<lparr>intg = 3, frac = 0, type = d_UINT, opmode = FIXEDFRAC, sat = False, rounding = False,
      raw_val = Fin 3, pinf = Fin 7, ninf = Fin 0, shift = Fin 1,
      full = 8, half = 0\<rparr>"

section \<open>The bounds as the specification words them\<close>

text \<open>
  The two pairs of formulas of the specification (positive bound, negative bound), and
  the threshold between them as the specification states it: on the combined width.
\<close>

definition bounds_exact :: "int \<Rightarrow> int \<Rightarrow> dtype \<Rightarrow> double \<times> double" where
  "bounds_exact i f t =
     (Fin ((2 ^ nat (i + f) - 1) / 2 ^ nat f),
      if is_unsigned t then Fin 0 else Fin (- (2 ^ nat (i + f)) / 2 ^ nat f))"

definition bounds_approx :: "int \<Rightarrow> dtype \<Rightarrow> double \<times> double" where
  "bounds_approx i t =
     (Fin (2 ^ nat i - 1), if is_unsigned t then Fin 0 else Fin (- (2 ^ nat i)))"

definition bounds_claimed :: "int \<Rightarrow> int \<Rightarrow> dtype \<Rightarrow> double \<times> double" where
  "bounds_claimed i f t = (if i + f < 31 then bounds_exact i f t else bounds_approx i t)"

text \<open>The object of \<open>var_1\<close> of the driver (widths 30 and 10) after \<open>_set_bounds\<close>.\<close>

definition var_1_bounds :: FXP where
  "var_1_bounds =
     \<lparr>intg = 30, frac = 10, type = d_FXP, opmode = FULL, sat = False, rounding = False,
      raw_val = Fin 0, pinf = Fin (1099511627775 / 1024), ninf = Fin (- 1073741824),
      shift = Fin 1024, full = 2199023255552, half = 1099511627776\<rparr>"

text \<open>
  \<open>FXP(1e10, tuple(30, 30, d_UFXP, FULL, true, false))\<close>: 60 bits, where the positive
  bound is the rounded \<open>2 ^ 60 / 2 ^ 30\<close> and the clamped count \<open>2 ^ 60\<close> wraps to 0.
\<close>

definition clamped_30_30 :: FXP where
  "clamped_30_30 =
     \<lparr>intg = 30, frac = 30, type = d_UFXP, opmode = FULL, sat = True, rounding = False,
      raw_val = Fin 0, pinf = Fin 1073741824, ninf = Fin 0, shift = Fin 1073741824,
      full = 1152921504606846976, half = 0\<rparr>"

section \<open>Invariant of an object and the quantization grid\<close>

text \<open>
  The derived members of an object that is not \<open>d_FLOAT\<close> agree with its widths. The
  widest signed width, 62, has \<open>full = 1 << 63\<close>, the least \<open>int64_t\<close>.
\<close>

definition fields_ok :: "FXP \<Rightarrow> bool" where
  "fields_ok t =
     (0 \<le> frac t \<and> 0 \<le> intg t + frac t \<and> intg t + frac t \<le> 62 \<and>
      shift t = Fin (2 ^ nat (frac t)) \<and>
      full t = (if is_unsigned (type t) then 2 ^ nat (intg t + frac t)
                else if intg t + frac t = 62 then - (2 ^ 63)
                else 2 ^ Suc (nat (intg t + frac t))) \<and>
      half t = (if is_unsigned (type t) then 0 else 2 ^ nat (intg t + frac t)))"

text \<open>
  The representable count of a configuration, and the sign-corrected reduction of an
  integer count modulo it: into \<open>0 ..< count\<close> for the unsigned kinds, into
  \<open>- count / 2 ..< count / 2\<close> for the signed ones.
\<close>

definition rep_count :: "'a tuple_scheme \<Rightarrow> int" where
  "rep_count c =
     (if is_unsigned (type c) then 2 ^ nat (intg c + frac c) else 2 ^ Suc (nat (intg c + frac c)))"

definition wrap_count :: "'a tuple_scheme \<Rightarrow> int \<Rightarrow> int" where
  "wrap_count c m =
     (if is_unsigned (type c) then m mod rep_count c
      else (m + rep_count c div 2) mod rep_count c - rep_count c div 2)"

definition in_grid :: "'a tuple_scheme \<Rightarrow> int \<Rightarrow> bool" where
  "in_grid c n =
     (if is_unsigned (type c) then 0 \<le> n \<and> n < rep_count c
      else - (rep_count c div 2) \<le> n \<and> n < rep_count c div 2)"

text \<open>
  The count behind the positive bound: \<open>_set_bounds\<close> converts \<open>2 ^ k - 1\<close> to \<open>double\<close>,
  which keeps it up to 53 bits and rounds it to \<open>2 ^ k\<close> beyond.
\<close>

definition top_count :: "nat \<Rightarrow> int" where
  "top_count k = (if k \<le> 53 then 2 ^ k - 1 else 2 ^ k)"

section \<open>Overflow resolution, as the code does it\<close>

text \<open>
  A configuration the constructor accepts whatever the input: not \<open>d_FLOAT\<close>, widths
  that are not negative, no fraction for the integer kinds, and a combined width of at most
  53 bits, the widths whose counts a double holds exactly.
\<close>

definition valid_cfg :: "'a tuple_scheme \<Rightarrow> bool" where
  "valid_cfg c =
     (type c \<noteq> d_FLOAT \<and> 0 \<le> intg c \<and> 0 \<le> frac c \<and> intg c + frac c \<le> 53 \<and>
      (is_intkind (type c) \<longrightarrow> frac c = 0))"

text \<open>
  What the constructor returns under wraparound for the real input \<open>v\<close>, given the object
  \<open>t\<close> that \<open>_set_bounds\<close> has prepared: the two assertions that can stop it, else the
  object with the wrapped count.
\<close>

definition wrap_outcome :: "FXP \<Rightarrow> real \<Rightarrow> error + FXP" where
  "wrap_outcome t v =
     (let n = wrap_count t (rnd (rounding t) (v * 2 ^ nat (frac t)))
      in if is_unsigned (type t) \<and> v < 0 then Inl AssertNonNeg
         else if v * of_int n < 0 then Inl AssertSignChange
         else Inr (t\<lparr>raw_val := Fin (of_int n)\<rparr>))"

section \<open>Objects of the library and the comparison of two results\<close>

text \<open>
  The invariant of an object of the library: the stored value is a binary64 number; a
  \<open>d_FLOAT\<close> holds any but NaN; any other kind has its derived members right and holds an
  integer count of its grid.
\<close>

definition obj_ok :: "FXP \<Rightarrow> bool" where
  "obj_ok a =
     (case raw_val a of
        Fin r \<Rightarrow> rd r = Fin r \<and>
                 (type a = d_FLOAT \<or> (fields_ok a \<and> r = of_int \<lfloor>r\<rfloor> \<and> in_grid a \<lfloor>r\<rfloor>))
      | PInf \<Rightarrow> type a = d_FLOAT
      | NInf \<Rightarrow> type a = d_FLOAT
      | NaN \<Rightarrow> False)"

text \<open>
  Two outcomes agree when both stop on the same error, or both return and the results
  compare equal with \<open>operator==\<close>.
\<close>

definition res_eq :: "error + FXP \<Rightarrow> error + FXP \<Rightarrow> bool" where
  "res_eq r s =
     (case r of
        Inl e \<Rightarrow> (case s of Inl e' \<Rightarrow> e = e' | Inr d \<Rightarrow> False)
      | Inr c \<Rightarrow> (case s of Inl e' \<Rightarrow> False | Inr d \<Rightarrow> op_eq c d))"

text \<open>\<open>var_4 - var_3\<close> and its negation, as the operators leave them.\<close>

definition diff_3_4 :: FXP where
  "diff_3_4 =
     \<lparr>intg = 10, frac = 1, type = d_FXP, opmode = FIXEDFRAC, sat = False, rounding = False,
      raw_val = Fin (- 102), pinf = Fin (2047 / 2), ninf = Fin (- 1024), shift = Fin 2,
      full = 4096, half = 2048\<rparr>"

definition neg_diff_4_3 :: FXP where
  "neg_diff_4_3 =
     \<lparr>intg = 10, frac = 1, type = d_FXP, opmode = FIXEDFRAC, sat = False, rounding = False,
      raw_val = Fin (- 101), pinf = Fin (2047 / 2), ninf = Fin (- 1024), shift = Fin 2,
      full = 4096, half = 2048\<rparr>"

text \<open>
  Where subtraction loses nothing: two \<open>d_FLOAT\<close> operands, or \<open>FULL\<close> mode (the result
  keeps the wider fraction and gains an integer bit) with a result of at most 53 bits, the
  counts a double holds exactly, and, under saturation, both widths of the result below
  31, where \<open>_set_bounds\<close> computes the exact bounds.
\<close>

definition sub_exact :: "FXP \<Rightarrow> FXP \<Rightarrow> bool" where
  "sub_exact a b =
     (type a = d_FLOAT \<or>
      (opmode a = FULL \<and>
       fastmax (intg a) (intg b) + 1 + fastmax (frac a) (frac b) \<le> 53 \<and>
       (sat a \<longrightarrow> fastmax (intg a) (intg b) + 1 < 31 \<and> fastmax (frac a) (frac b) < 31)))"

text \<open>
  \<open>var_1\<close> and \<open>var_2\<close> of the test driver, both \<open>FULL\<close>; their sum, which the driver
  prints; and that sum less \<open>var_2\<close>.
\<close>

definition var_1 :: FXP where
  "var_1 =
     \<lparr>intg = 30, frac = 10, type = d_FXP, opmode = FULL, sat = False, rounding = False,
      raw_val = Fin (- 11391), pinf = Fin (1099511627775 / 1024), ninf = Fin (- 1073741824),
      shift = Fin 1024, full = 2199023255552, half = 1099511627776\<rparr>"

definition var_2 :: FXP where
  "var_2 =
     \<lparr>intg = 10, frac = 10, type = d_FXP, opmode = FULL, sat = False, rounding = False,
      raw_val = Fin (- 11391), pinf = Fin (1048575 / 1024), ninf = Fin (- 1024),
      shift = Fin 1024, full = 2097152, half = 1048576\<rparr>"

definition sum_1_2 :: FXP where
  "sum_1_2 =
     \<lparr>intg = 31, frac = 10, type = d_FXP, opmode = FULL, sat = False, rounding = False,
      raw_val = Fin (- 22782), pinf = Fin 2147483647, ninf = Fin (- 2147483648),
      shift = Fin 1024, full = 4398046511104, half = 2199023255552\<rparr>"

definition diff_sum_2 :: FXP where
  "diff_sum_2 =
     \<lparr>intg = 32, frac = 10, type = d_FXP, opmode = FULL, sat = False, rounding = False,
      raw_val = Fin (- 11391), pinf = Fin 4294967295, ninf = Fin (- 4294967296),
      shift = Fin 1024, full = 8796093022208, half = 4398046511104\<rparr>"

text \<open>
  The greatest and the least count of a signed integer of 53 bits, in \<open>FULL\<close> mode: their
  difference needs 54 bits and is no binary64 number.
\<close>

definition top_53 :: FXP where
  "top_53 =
     \<lparr>intg = 53, frac = 0, type = d_INT, opmode = FULL, sat = False, rounding = False,
      raw_val = Fin 9007199254740991, pinf = Fin 9007199254740991,
      ninf = Fin (- 9007199254740992), shift = Fin 1,
      full = 18014398509481984, half = 9007199254740992\<rparr>"

definition bottom_53 :: FXP where
  "bottom_53 =
     \<lparr>intg = 53, frac = 0, type = d_INT, opmode = FULL, sat = False, rounding = False,
      raw_val = Fin (- 9007199254740992), pinf = Fin 9007199254740991,
      ninf = Fin (- 9007199254740992), shift = Fin 1,
      full = 18014398509481984, half = 9007199254740992\<rparr>"

section \<open>The promotion of a literal as the specification words it\<close>

definition promoted_kind :: "dtype \<Rightarrow> int \<Rightarrow> dtype" where
  "promoted_kind t b = (if t = d_FLOAT then d_FLOAT else if 0 \<le> b then d_UINT else d_INT)"

definition promote :: "FXP \<Rightarrow> int \<Rightarrow> tuple" where
  "promote a b =
     mk_tuple (lit_width \<bar>b\<bar>) 0 (promoted_kind (type a) b) (opmode a) (sat a) (rounding a)"

text \<open>\<open>var_3\<close> of the driver, which it adds to 2, subtracts from 3 and multiplies by 5.\<close>

definition var_3 :: FXP where
  "var_3 =
     \<lparr>intg = 9, frac = 5, type = d_FXP, opmode = FIXEDFRAC, sat = False, rounding = False,
      raw_val = Fin (- 356), pinf = Fin (16383 / 32), ninf = Fin (- 512), shift = Fin 32,
      full = 32768, half = 16384\<rparr>"

section \<open>Rounding to binary64\<close>

lemma round_even_of_int [simp]: "round_even (of_int m) = m"
  by (simp add: round_even_def)

lemma rd_minus: "rd (- x) = dneg (rd x)"
  by (simp add: rd_def Let_def inf_of_sign_def)

lemma binary64_simps [simp]:
  "binary64 (Fin a) = rd a" "binary64 PInf = PInf" "binary64 NInf = NInf" "binary64 NaN = NaN"
  by (simp_all add: binary64_def)

lemma binary64_dneg: "binary64 (dneg x) = dneg (binary64 x)"
  by (cases x) (simp_all add: rd_minus)

text \<open>A value that is a whole multiple of its unit in the last place is kept.\<close>

lemma rd_exact:
  assumes "x \<noteq> 0" "\<bar>x\<bar> / 2 powi (ulp_exp \<bar>x\<bar>) = of_int m" "\<bar>x\<bar> < 2 ^ 1024"
  shows "rd x = Fin x"
proof -
  have nz: "(2::real) powi (ulp_exp \<bar>x\<bar>) \<noteq> 0" by simp
  have "of_int m * 2 powi (ulp_exp \<bar>x\<bar>) = \<bar>x\<bar>"
    using assms(2) nz by (simp add: field_simps)
  then have y: "of_int (round_even (\<bar>x\<bar> / 2 powi (ulp_exp \<bar>x\<bar>))) * 2 powi (ulp_exp \<bar>x\<bar>) = \<bar>x\<bar>"
    by (simp add: assms(2))
  have s: "sgn x * \<bar>x\<bar> = x" by (simp add: sgn_mult_abs)
  show ?thesis using assms(1,3) unfolding rd_def Let_def y s by simp
qed

lemma halvings_eq:
  "2 ^ k \<le> x \<Longrightarrow> x < 2 ^ Suc k \<Longrightarrow> k \<le> n \<Longrightarrow> halvings n x = int k"
proof (induction n arbitrary: k x)
  case 0
  then show ?case by simp
next
  case (Suc n)
  show ?case
  proof (cases k)
    case 0
    with Suc.prems show ?thesis by simp
  next
    case (Suc j)
    have "(2::real) ^ 1 \<le> 2 ^ k" unfolding Suc by (intro power_increasing) simp_all
    with Suc.prems(1) have x2: "2 \<le> x" by simp
    have "2 ^ j \<le> x / 2" "x / 2 < 2 ^ Suc j" "j \<le> n"
      using Suc.prems Suc by simp_all
    then have "halvings n (x / 2) = int j" by (rule Suc.IH)
    with x2 show ?thesis by (simp add: Suc)
  qed
qed

lemma doublings_eq:
  "1 / 2 ^ k \<le> x \<Longrightarrow> x < 2 / 2 ^ k \<Longrightarrow> k \<le> n \<Longrightarrow> doublings n x = int k"
proof (induction n arbitrary: k x)
  case 0
  then show ?case by simp
next
  case (Suc n)
  show ?case
  proof (cases k)
    case 0
    with Suc.prems show ?thesis by simp
  next
    case (Suc j)
    have "(2::real) / 2 ^ k \<le> 1" unfolding Suc by (simp add: field_simps)
    with Suc.prems(2) have x1: "x < 1" by linarith
    have "1 / 2 ^ j \<le> 2 * x" "2 * x < 2 / 2 ^ j" "j \<le> n"
      using Suc.prems Suc by (simp_all add: field_simps)
    then have "doublings n (2 * x) = int j" by (rule Suc.IH)
    with x1 show ?thesis by (simp add: Suc)
  qed
qed

text \<open>On the exponent range of binary64, \<open>ilog2\<close> is the integer part of the logarithm.\<close>

lemma ilog2_nonneg:
  assumes "2 ^ k \<le> x" "x < 2 ^ Suc k" "k \<le> 1024"
  shows "ilog2 x = int k"
proof -
  have "(1::real) \<le> 2 ^ k" by simp
  with assms(1) have "1 \<le> x" by linarith
  then show ?thesis using halvings_eq [OF assms] by (simp add: ilog2_def)
qed

lemma ilog2_neg:
  assumes "1 / 2 ^ k \<le> x" "x < 2 / 2 ^ k" "0 < k" "k \<le> 1100"
  shows "ilog2 x = - int k"
proof -
  have "(2::real) ^ 1 \<le> 2 ^ k" using assms(3) by (intro power_increasing) simp_all
  then have "(2::real) / 2 ^ k \<le> 1" by (simp add: field_simps)
  with assms(2) have "\<not> 1 \<le> x" by linarith
  then show ?thesis using doublings_eq [OF assms(1,2,4)] by (simp add: ilog2_def)
qed

lemma halvings_nonneg: "0 \<le> halvings n x"
  by (induction n arbitrary: x) simp_all

lemma halvings_le: "x < 2 ^ Suc m \<Longrightarrow> halvings n x \<le> int m"
proof (induction n arbitrary: x m)
  case 0
  then show ?case by simp
next
  case (Suc n)
  show ?case
  proof (cases "2 \<le> x")
    case True
    have "m \<noteq> 0" using True Suc.prems by (cases m) simp_all
    then obtain j where m: "m = Suc j" by (cases m) simp_all
    have "x / 2 < 2 ^ Suc j" using Suc.prems by (simp add: m)
    then have "halvings n (x / 2) \<le> int j" by (rule Suc.IH)
    with True show ?thesis by (simp add: m)
  next
    case False
    then show ?thesis by simp
  qed
qed

lemma rd_int:
  assumes "\<bar>n\<bar> \<le> 2 ^ 53"
  shows "rd (of_int n) = Fin (of_int n)"
proof (cases "n = 0")
  case True
  then show ?thesis by (simp add: rd_def)
next
  case False
  define a :: real where "a = \<bar>of_int n\<bar>"
  have a1: "1 \<le> a" using False by (simp add: a_def)
  have a53: "a \<le> 2 ^ 53" using assms unfolding a_def
    by (metis of_int_abs of_int_le_iff of_int_numeral of_int_power)
  have big: "a < 2 ^ 1024"
  proof -
    have "(2::real) ^ 53 < 2 ^ 1024" by (rule power_strict_increasing) simp_all
    with a53 show ?thesis by linarith
  qed
  have "\<exists>m. a / 2 powi (ulp_exp a) = of_int m"
  proof (cases "a = 2 ^ 53")
    case True
    have "(2::real) ^ 53 \<le> a" "a < 2 ^ Suc 53" unfolding True by simp_all
    then have "ilog2 a = int 53" by (rule ilog2_nonneg) simp
    then have "ulp_exp a = 1" by (simp add: ulp_exp_def)
    then have "a / 2 powi (ulp_exp a) = of_int (2 ^ 52)" by (simp add: True)
    then show ?thesis by blast
  next
    case False
    with a53 have "a < 2 ^ Suc 52" by simp
    from halvings_le [OF this, of 1024] halvings_nonneg [of 1024 a] a1
    have e: "- 52 \<le> ulp_exp a" "ulp_exp a \<le> 0"
      by (simp_all add: ulp_exp_def ilog2_def)
    define j where "j = nat (- ulp_exp a)"
    have "ulp_exp a = - int j" using e by (simp add: j_def)
    then have "a / 2 powi (ulp_exp a) = a * 2 ^ j"
      by (simp add: power_int_minus field_simps)
    also have "\<dots> = of_int (\<bar>n\<bar> * 2 ^ j)" by (simp add: a_def)
    finally show ?thesis by blast
  qed
  then obtain m where m: "\<bar>of_int n\<bar> / 2 powi (ulp_exp \<bar>of_int n\<bar>) = (of_int m :: real)"
    unfolding a_def by blast
  have nz: "(of_int n :: real) \<noteq> 0" using False by simp
  show ?thesis using nz m big [unfolded a_def] by (rule rd_exact)
qed

lemma rd_numeral [simp]:
  "numeral w \<le> (9007199254740992::int) \<Longrightarrow> rd (numeral w) = Fin (numeral w)"
  "numeral w \<le> (9007199254740992::int) \<Longrightarrow> rd (- numeral w) = Fin (- numeral w)"
  "rd 0 = Fin 0" "rd 1 = Fin 1" "rd (- 1) = Fin (- 1)"
  using rd_int [of "numeral w"] rd_int [of "- numeral w"] rd_int [of 0] rd_int [of 1] rd_int [of "- 1"]
  by simp_all


text \<open>One less than a power of two: kept up to 53 bits, rounded up to the power beyond.\<close>

lemma rd_pow2m1:
  assumes "53 < k" "k \<le> 1023"
  shows "rd (of_int (2 ^ k - 1)) = Fin (2 ^ k)"
proof -
  define x :: real where "x = 2 ^ k - 1"
  define e where "e = k - 53"
  have k: "k = Suc (k - 1)" "k = e + 53" "0 < e" using assms by (simp_all add: e_def)
  have two: "(2::real) ^ k = 2 * 2 ^ (k - 1)" by (subst k(1)) simp
  have "(1::real) \<le> 2 ^ (k - 1)" by simp
  then have lo: "2 ^ (k - 1) \<le> x" and hi: "x < 2 ^ k" and x0: "0 < x"
    unfolding x_def two by linarith+
  have hi': "x < 2 ^ Suc (k - 1)" using hi k(1) by simp
  have "k - 1 \<le> 1024" using assms(2) by simp
  with lo hi' have "ilog2 x = int (k - 1)" by (rule ilog2_nonneg)
  then have ue: "ulp_exp x = int e" using assms by (simp add: ulp_exp_def e_def)
  have pe: "(2::real) ^ k = 2 ^ 53 * 2 ^ e" by (subst k(2)) (simp add: power_add)
  define u :: real where "u = 1 / 2 ^ e"
  have u: "0 < u" "u \<le> 1 / 2" 
  proof -
    show "0 < u" by (simp add: u_def)
    have "(2::real) ^ 1 \<le> 2 ^ e" using k(3) by (intro power_increasing) simp_all
    then show "u \<le> 1 / 2" by (simp add: u_def field_simps)
  qed
  have q: "x / 2 ^ e = 2 ^ 53 - u" by (simp add: x_def pe u_def field_simps)
  have fl: "\<lfloor>x / 2 ^ e\<rfloor> = 2 ^ 53 - 1"
    unfolding q using u by (simp add: floor_eq_iff)
  define f :: int where "f = 2 ^ 53 - 1"
  have fl': "\<lfloor>x / 2 ^ e\<rfloor> = f" using fl by (simp add: f_def)
  have r: "x / 2 ^ e - of_int f = 1 - u" using q by (simp add: f_def)
  have odd: "odd f" by (simp add: f_def)
  have "round_even (x / 2 ^ e) = f + 1"
    unfolding round_even_def Let_def fl' r using u odd by auto
  then have re: "round_even (x / 2 ^ e) = 2 ^ 53" by (simp add: f_def)
  have xa: "\<bar>x\<bar> = x" "x \<noteq> 0" "sgn x = 1" using x0 by simp_all
  have big: "\<not> (2::real) ^ 1024 \<le> 2 ^ k"
  proof -
    have "(2::real) ^ k < 2 ^ 1024" using assms(2) by (intro power_strict_increasing) simp_all
    then show ?thesis by simp
  qed
  have "rd x = Fin (2 ^ k)"
    unfolding rd_def Let_def xa ue power_int_of_nat re using xa(2) big
    by (simp add: pe)
  then show ?thesis by (simp add: x_def)
qed

lemma top_count_bounds: "2 ^ k - 1 \<le> top_count k" "top_count k \<le> 2 ^ k" "0 \<le> top_count k"
  by (simp_all add: top_count_def)

lemma top_count_exact: "k \<le> 53 \<Longrightarrow> top_count k = 2 ^ k - 1"
  by (simp add: top_count_def)

lemma rd_top:
  assumes "k \<le> 62"
  shows "rd (2 ^ k - 1) = Fin (of_int (top_count k))"
proof (cases "k \<le> 53")
  case True
  have "(0::int) < 2 ^ k" by simp
  moreover have "(2::int) ^ k \<le> 2 ^ 53" using True by (intro power_increasing) simp_all
  ultimately have "\<bar>(2::int) ^ k - 1\<bar> \<le> 2 ^ 53" by linarith
  from rd_int [OF this] show ?thesis using True by (simp add: top_count_def)
next
  case False
  then have "53 < k" "k \<le> 1023" using assms by simp_all
  from rd_pow2m1 [OF this] show ?thesis using False by (simp add: top_count_def)
qed

section \<open>Evaluation\<close>

lemmas ctor_eval =
  FXP_new_def set_bounds_def full_half_def limits_def set_val_def map_inf_def store_def to_signed_def to_unsigned_def read_template_def
  FXP_default_def mk_tuple_def ebind_def c_assert_def shl64_def wrap_def chk64_def
  in_int64_def is_unsigned_def round_or_floor_def fastfloor_def trunc_def c_rem_def
  saturate_def deq_def dle_def dsub_def c_round_def round_half_away_def inf_of_sign_def

lemmas op_eval =
  val_def add_def sub_def mul_def add5_def sub5_def mul5_def check_operands_def align_def
  add_sub_width_def mul_width_def frac_fixed_def type_addmul_def type_sub_def
  is_intkind_def is_fxpkind_def fastmax_def fastmin_def op_shr_def op_shl_def shl32_def
  op_neg_def op_eq_def copy_def

lemma var_4_new:
  "FXP_new (Fin 39.987654321) (mk_tuple 7 1 d_FXP FIXEDFRAC False False) = Inr var_4"
  by (simp add: ctor_eval var_4_def)

lemma int_1_new: "FXP_new (Fin (- 3)) (mk_tuple 3 0 d_INT FIXEDFRAC False False) = Inr int_1"
  by (simp add: ctor_eval int_1_def)

lemma uint_1_new: "FXP_new (Fin 3) (mk_tuple 3 0 d_UINT FIXEDFRAC False False) = Inr uint_1"
  by (simp add: ctor_eval uint_1_def)

section \<open>The error monad and the integer helpers\<close>

lemma ebind_Inr_iff: "ebind m f = Inr y \<longleftrightarrow> (\<exists>x. m = Inr x \<and> f x = Inr y)"
  by (cases m) (simp_all add: ebind_def)

lemma ebind_Inr [simp]: "ebind (Inr x) f = f x"
  by (simp add: ebind_def)

lemma ebind_Inl [simp]: "ebind (Inl e) f = Inl e"
  by (simp add: ebind_def)

lemma c_assert_Inr_iff: "c_assert c e = Inr u \<longleftrightarrow> c"
  by (simp add: c_assert_def)

lemma chk64_Inr_iff: "chk64 n = Inr m \<longleftrightarrow> in_int64 n \<and> m = n"
  by (auto simp: chk64_def)

lemma pow2_le_62: "k \<le> 62 \<Longrightarrow> (2::int) ^ k \<le> 2 ^ 62"
  by (rule power_increasing) simp_all

lemma wrap64_pow2: 
  assumes "k \<le> 62" shows "wrap 64 (2 ^ k) = 2 ^ k"
proof -
  have "(2::int) ^ k \<le> 2 ^ 62" using assms by (rule pow2_le_62)
  moreover have "(0::int) < 2 ^ k" by simp
  ultimately have "((2::int) ^ k + 2 ^ 63) mod 2 ^ 64 = 2 ^ k + 2 ^ 63"
    by (intro mod_pos_pos_trivial) simp_all
  then show ?thesis by (simp add: wrap_def)
qed

lemma wrap64_pow2_63: "wrap 64 (2 ^ 63) = - (2 ^ 63)"
  by (simp add: wrap_def)

lemma shl64_1_Inr_iff:
  "shl64 1 k = Inr p \<longleftrightarrow> (0 \<le> k \<and> k \<le> 62 \<and> p = 2 ^ nat k) \<or> (k = 63 \<and> p = - (2 ^ 63))"
proof (cases "0 \<le> k \<and> k \<le> 62")
  case True
  then have "nat k \<le> 62" by arith
  then have "wrap 64 (2 ^ nat k) = 2 ^ nat k" by (rule wrap64_pow2)
  with True show ?thesis by (auto simp: shl64_def)
next
  case False
  show ?thesis
  proof (cases "k = 63")
    case True
    then show ?thesis by (auto simp: shl64_def wrap_def)
  next
    case c: False
    with False have "\<not> (0 \<le> k \<and> k < 64)" by arith
    with False c show ?thesis by (auto simp: shl64_def)
  qed
qed



lemma shl64_1_ok: "0 \<le> k \<Longrightarrow> k \<le> 62 \<Longrightarrow> shl64 1 k = Inr (2 ^ nat k)"
  by (simp add: shl64_1_Inr_iff)

lemma full_half_unsigned:
  assumes "full_half i f t = Inr (fu, h)" "is_unsigned t"
  shows "h = 0 \<and> 0 \<le> i + f \<and> i + f \<le> 63 \<and> (i + f \<le> 62 \<longrightarrow> fu = 2 ^ nat (i + f))"
  using assms by (auto simp: full_half_def ebind_Inr_iff shl64_1_Inr_iff)

lemma full_half_signed:
  assumes "full_half i f t = Inr (fu, h)" "\<not> is_unsigned t"
  shows "0 \<le> i + f \<and> i + f \<le> 62 \<and> h = 2 ^ nat (i + f) \<and>
         fu = (if i + f = 62 then - (2 ^ 63) else 2 ^ nat (i + f + 1))"
  using assms by (auto simp: full_half_def ebind_Inr_iff shl64_1_Inr_iff)

lemma limits_exact:
  assumes "limits i f t (Fin (2 ^ nat f)) = Inr (p, n)" "t \<noteq> d_FLOAT" "i < 31" "f < 31"
  shows "0 \<le> i + f \<and>
         p = Fin (of_int (top_count (nat (i + f))) / 2 ^ nat f) \<and>
         n = (if is_unsigned t then Fin 0 else Fin (- (2 ^ nat (i + f)) / 2 ^ nat f))"
proof -
  have "nat (i + f) \<le> 62" using assms(3,4) by arith
  note r = rd_top [OF this]
  show ?thesis
    using assms
    by (auto simp: limits_def ebind_Inr_iff shl64_1_Inr_iff chk64_Inr_iff r split: if_splits)
qed

lemma limits_approx:
  assumes "limits i f t s = Inr (p, n)" "t \<noteq> d_FLOAT" "\<not> (i < 31 \<and> f < 31)"
  shows "0 \<le> i \<and> i \<le> 62 \<and> p = Fin (of_int (top_count (nat i))) \<and>
         n = (if is_unsigned t then Fin 0 else Fin (- (2 ^ nat i)))"
proof -
  from assms have i: "0 \<le> i \<and> i \<le> 62"
    by (auto simp: limits_def ebind_Inr_iff shl64_1_Inr_iff chk64_Inr_iff in_int64_def
          split: if_splits)
  then have "nat i \<le> 62" by arith
  note r = rd_top [OF this]
  show ?thesis
    using assms i
    by (auto simp: limits_def ebind_Inr_iff shl64_1_Inr_iff chk64_Inr_iff r split: if_splits)
qed


lemma trunc_of_int [simp]: "trunc (of_int n) = n"
  by (simp add: trunc_def)

lemma fastfloor_Fin:
  "fastfloor (Fin x) = (if in_int64 (trunc x) then Inr (Fin (of_int \<lfloor>x\<rfloor>)) else Inl Undefined)"
proof (cases "in_int64 (trunc x)")
  case False
  then show ?thesis by (simp add: fastfloor_def chk64_def)
next
  case True
  have "real_of_int (trunc x) - (if x < of_int (trunc x) then 1 else 0) = of_int \<lfloor>x\<rfloor>"
  proof (cases "0 \<le> x")
    case True
    then show ?thesis by (simp add: trunc_def not_less)
  next
    case False
    show ?thesis
    proof (cases "x = of_int \<lfloor>x\<rfloor>")
      case True
      then have "\<lceil>x\<rceil> = \<lfloor>x\<rfloor>" by (metis ceiling_of_int)
      with False True show ?thesis by (simp add: trunc_def)
    next
      case ni: False
      then have c: "\<lceil>x\<rceil> = \<lfloor>x\<rfloor> + 1" by (simp add: ceiling_altdef)
      have "x < of_int \<lceil>x\<rceil>" using ni c by linarith
      with False c show ?thesis by (simp add: trunc_def)
    qed
  qed
  then show ?thesis using True
    by (auto simp: fastfloor_def chk64_def dsub_def)
qed

lemma round_or_floor_Fin:
  "round_or_floor r (Fin x) =
     (if r \<or> in_int64 (trunc x) then Inr (Fin (of_int (rnd r x))) else Inl Undefined)"
  by (simp add: round_or_floor_def fastfloor_Fin rnd_def c_round_def)

lemma rnd_of_int [simp]: "rnd r (of_int n) = n"
proof -
  have "\<lfloor>real_of_int n + 1 / 2\<rfloor> = n" by linarith
  moreover have "\<lfloor>- real_of_int n + 1 / 2\<rfloor> = - n" by linarith
  ultimately show ?thesis by (simp add: rnd_def round_half_away_def)
qed

lemma rnd_between:
  assumes "of_int L \<le> x" "x \<le> of_int U"
  shows "L \<le> rnd r x \<and> rnd r x \<le> U"
  using assms unfolding rnd_def round_half_away_def by (auto; linarith)

lemma rnd_sign: "(0 \<le> x \<longrightarrow> 0 \<le> rnd r x) \<and> (x \<le> 0 \<longrightarrow> rnd r x \<le> 0)"
  using rnd_between [of 0 x 0 r] rnd_between [of 0 x "\<lceil>x\<rceil>" r] rnd_between [of "\<lfloor>x\<rfloor>" x 0 r]
  by (auto simp: le_of_int_ceiling)

lemma c_rem_correct:
  assumes "0 < M"
  shows "(if c_rem u M < 0 then c_rem u M + M else c_rem u M) = u mod M"
proof (cases "0 \<le> u")
  case True
  then have "c_rem u M = u mod M" using assms by (cases "u = 0") (simp_all add: c_rem_def)
  moreover have "0 \<le> u mod M" using assms by simp
  ultimately show ?thesis by simp
next
  case False
  then have c: "c_rem u M = - ((- u) mod M)" using assms by (simp add: c_rem_def)
  show ?thesis
  proof (cases "u mod M = 0")
    case True
    then have "(- u) mod M = 0" by (simp add: zmod_zminus1_eq_if)
    with c True show ?thesis by simp
  next
    case nz: False
    then have "(- u) mod M = M - u mod M" by (simp add: zmod_zminus1_eq_if)
    moreover have "u mod M < M" using assms by simp
    ultimately show ?thesis using c by simp
  qed
qed


lemma wrap_block:
  assumes "0 < M" "M \<le> 2 ^ 63"
  shows "(let tempint = c_rem u M in if tempint < 0 then chk64 (tempint + M) else Inr tempint)
         = Inr (u mod M)"
proof -
  have r: "0 \<le> u mod M \<and> u mod M < M" using assms by simp
  show ?thesis
  proof (cases "c_rem u M < 0")
    case True
    then have "c_rem u M + M = u mod M" using c_rem_correct [OF assms(1), of u] by simp
    moreover have "in_int64 (u mod M)" unfolding in_int64_def using r assms by linarith
    ultimately show ?thesis using True by (simp add: chk64_def)
  next
    case False
    then have "c_rem u M = u mod M" using c_rem_correct [OF assms(1), of u] by simp
    with False show ?thesis by simp
  qed
qed

text \<open>The widest signed configuration: \<open>full\<close> is \<open>1 << 63\<close>, the least \<open>int64_t\<close>.\<close>

lemma wrap_block_63:
  assumes "in_int64 u" "- (2 ^ 63) < u"
  shows "(let tempint = c_rem u (- (2 ^ 63)) in
            if tempint < 0 then chk64 (tempint + - (2 ^ 63)) else Inr tempint)
         = (if 0 \<le> u then Inr u else Inl Undefined)"
proof -
  have "\<bar>u\<bar> < 2 ^ 63" using assms unfolding in_int64_def by linarith
  then have "\<bar>u\<bar> mod 2 ^ 63 = \<bar>u\<bar>" by simp
  then have "c_rem u (- (2 ^ 63)) = sgn u * \<bar>u\<bar>" by (simp add: c_rem_def)
  then have c: "c_rem u (- (2 ^ 63)) = u" by (simp add: sgn_mult_abs)
  have "\<not> in_int64 (u + - (2 ^ 63))" if "u < 0"
    using that unfolding in_int64_def by linarith
  then show ?thesis unfolding c Let_def by (simp add: chk64_def)
qed

lemma pow2_mono: "a \<le> b \<Longrightarrow> (2::int) ^ a \<le> 2 ^ b"
  by (rule power_increasing) simp_all

section \<open>What \<open>_to_signed\<close> and \<open>_to_unsigned\<close> compute\<close>

lemma to_signed_Fin:
  assumes "shift this = Fin (2 ^ F)" "half this = 2 ^ k" "full this = 2 ^ Suc k" "k \<le> 61"
  shows "to_signed this (Fin v) =
     (let m = rnd (rounding this) (v * 2 ^ F) in
      if (rounding this \<or> in_int64 (trunc (v * 2 ^ F))) \<and> in_int64 m \<and> in_int64 (m + 2 ^ k)
      then Inr (this\<lparr>raw_val := Fin (of_int ((m + 2 ^ k) mod 2 ^ Suc k - 2 ^ k))\<rparr>)
      else Inl Undefined)"
proof -
  define m where "m = rnd (rounding this) (v * 2 ^ F)"
  have M: "(0::int) < 2 ^ Suc k" "(2::int) ^ Suc k \<le> 2 ^ 63"
    using assms(4) by (simp del: power_Suc, intro pow2_mono, simp)
  have h: "(2::int) ^ k \<le> 2 ^ Suc k" by (rule pow2_mono) simp
  have r: "in_int64 ((u::int) mod 2 ^ Suc k - 2 ^ k)" for u
  proof -
    have "0 \<le> u mod 2 ^ Suc k \<and> u mod 2 ^ Suc k < 2 ^ Suc k" using M(1) by simp
    moreover have "(0::int) < 2 ^ k" by simp
    ultimately show ?thesis unfolding in_int64_def using M(2) h by linarith
  qed
  have wb: "(let tempint = c_rem u (full this)
            in if tempint < 0 then chk64 (tempint + full this) else Inr tempint)
           = Inr (u mod 2 ^ Suc k)" for u
    unfolding assms(3) by (rule wrap_block [OF M])
  have step: "to_signed this (Fin v) =
      (if rounding this \<or> in_int64 (trunc (v * 2 ^ F))
       then ebind (chk64 m) (\<lambda>t. ebind (chk64 (t + 2 ^ k)) (\<lambda>u.
              ebind (chk64 (u mod 2 ^ Suc k - 2 ^ k)) (\<lambda>r. Inr (this\<lparr>raw_val := Fin (of_int r)\<rparr>))))
       else Inl Undefined)"
    unfolding to_signed_def wb assms(1) dmul.simps round_or_floor_Fin m_def [symmetric]
    by (simp add: assms(2) del: power_Suc)
  show ?thesis
    unfolding step m_def [symmetric] Let_def
    using r by (simp add: chk64_def del: power_Suc)
qed


lemma to_signed_Fin_62:
  assumes "shift this = Fin (2 ^ F)" "half this = 2 ^ 62" "full this = - (2 ^ 63)"
  shows "to_signed this (Fin v) =
     (let m = rnd (rounding this) (v * 2 ^ F) in
      if (rounding this \<or> in_int64 (trunc (v * 2 ^ F))) \<and> in_int64 m \<and> - (2 ^ 62) \<le> m \<and> m < 2 ^ 62
      then Inr (this\<lparr>raw_val := Fin (of_int m)\<rparr>)
      else Inl Undefined)"
proof -
  define m where "m = rnd (rounding this) (v * 2 ^ F)"
  define blk where "blk u = (let tempint = c_rem u (full this)
            in if tempint < 0 then chk64 (tempint + full this) else Inr tempint)" for u
  have wb: "blk u = (if 0 \<le> u then Inr u else Inl Undefined)" if "in_int64 u" "- (2 ^ 63) < u" for u
    unfolding blk_def assms(3) using that by (rule wrap_block_63)
  have step: "to_signed this (Fin v) =
      (if rounding this \<or> in_int64 (trunc (v * 2 ^ F))
       then ebind (chk64 m) (\<lambda>t. ebind (chk64 (t + 2 ^ 62)) (\<lambda>u.
              ebind (blk u) (\<lambda>w.
              ebind (chk64 (w - 2 ^ 62)) (\<lambda>r. Inr (this\<lparr>raw_val := Fin (of_int r)\<rparr>)))))
       else Inl Undefined)"
    unfolding to_signed_def blk_def [symmetric] assms(1) dmul.simps round_or_floor_Fin m_def [symmetric]
    by (simp add: assms(2))
  show ?thesis
  proof (cases "in_int64 m \<and> - (2 ^ 62) \<le> m \<and> m < 2 ^ 62")
    case True
    then have a: "in_int64 (m + 2 ^ 62)" "- (2 ^ 63) < m + 2 ^ 62" "0 \<le> m + 2 ^ 62"
      unfolding in_int64_def by simp_all
    have b: "blk (m + 2 ^ 62) = Inr (m + 2 ^ 62)" using wb [OF a(1) a(2)] a(3) by simp
    have c: "chk64 m = Inr m" "chk64 (m + 2 ^ 62) = Inr (m + 2 ^ 62)"
      "chk64 (m + 2 ^ 62 - 2 ^ 62) = Inr m"
      using True a(1) by (simp_all add: chk64_def)
    show ?thesis
      unfolding step m_def [symmetric] Let_def
      using True b c by simp
  next
    case False
    show ?thesis
    proof (cases "in_int64 m \<and> in_int64 (m + 2 ^ 62)")
      case True
      then have lo: "- (2 ^ 63) < m + 2 ^ 62" unfolding in_int64_def by simp
      from True False have "m + 2 ^ 62 < 0" unfolding in_int64_def by simp
      then have b: "blk (m + 2 ^ 62) = Inl Undefined" using wb [OF conjunct2 [OF True] lo] by simp
      have c: "chk64 m = Inr m" "chk64 (m + 2 ^ 62) = Inr (m + 2 ^ 62)"
        using True by (simp_all add: chk64_def)
      show ?thesis
        unfolding step m_def [symmetric] Let_def
        using False b c by simp
    next
      case f2: False
      have c: "chk64 m = Inl Undefined \<or> (chk64 m = Inr m \<and> chk64 (m + 2 ^ 62) = Inl Undefined)"
        using f2 by (auto simp: chk64_def)
      have "\<not> (in_int64 m \<and> - (2 ^ 62) \<le> m \<and> m < 2 ^ 62)" by (rule False)
      then show ?thesis
        unfolding step m_def [symmetric] Let_def
        using c by auto
    qed
  qed
qed

lemma to_unsigned_Fin:
  assumes "shift this = Fin (2 ^ F)" "full this = 2 ^ k" "k \<le> 62"
  shows "to_unsigned this (Fin v) =
     (let m = rnd (rounding this) (v * 2 ^ F) in
      if (rounding this \<or> in_int64 (trunc (v * 2 ^ F))) \<and> in_int64 m
      then Inr (this\<lparr>raw_val := Fin (of_int (m mod 2 ^ k))\<rparr>)
      else Inl Undefined)"
proof -
  define m where "m = rnd (rounding this) (v * 2 ^ F)"
  have M: "(0::int) < 2 ^ k" "(2::int) ^ k \<le> 2 ^ 63"
    using assms(3) by (simp, intro pow2_mono, simp)
  have wb: "(let tempint = c_rem u (full this)
            in if tempint < 0 then chk64 (tempint + full this) else Inr tempint)
           = Inr (u mod 2 ^ k)" for u
    unfolding assms(2) by (rule wrap_block [OF M])
  show ?thesis
    unfolding to_unsigned_def wb assms(1) dmul.simps round_or_floor_Fin m_def [symmetric]
    by (simp add: chk64_def Let_def)
qed

section \<open>What \<open>_set_bounds\<close> leaves in the object\<close>

lemma set_bounds_Inr:
  assumes "set_bounds this = Inr t"
  shows "\<exists>s fu h p n. shl64 1 (frac this) = Inr s \<and>
           full_half (intg this) (frac this) (type this) = Inr (fu, h) \<and>
           limits (intg this) (frac this) (type this) (Fin (of_int s)) = Inr (p, n) \<and>
           t = this\<lparr>shift := Fin (of_int s), full := fu, half := h, pinf := p, ninf := n\<rparr>"
  using assms by (auto simp: set_bounds_def ebind_Inr_iff)

lemma set_bounds_nonfloat:
  assumes "set_bounds this = Inr t" "type this \<noteq> d_FLOAT" "intg this + frac this < 63"
  shows "\<exists>L U. 0 \<le> frac this \<and> 0 \<le> intg this + frac this \<and>
     t = this\<lparr>shift := Fin (2 ^ nat (frac this)),
              full := (if is_unsigned (type this) then 2 ^ nat (intg this + frac this)
                       else if intg this + frac this = 62 then - (2 ^ 63)
                       else 2 ^ Suc (nat (intg this + frac this))),
              half := (if is_unsigned (type this) then 0 else 2 ^ nat (intg this + frac this)),
              pinf := Fin (of_int U / 2 ^ nat (frac this)),
              ninf := Fin (of_int L / 2 ^ nat (frac this))\<rparr> \<and>
     L = (if is_unsigned (type this) then 0 else - (2 ^ nat (intg this + frac this))) \<and>
     0 \<le> U \<and> U \<le> 2 ^ nat (intg this + frac this) \<and>
     (intg this < 31 \<and> frac this < 31 \<longrightarrow> U = top_count (nat (intg this + frac this))) \<and>
     (\<not> (intg this < 31 \<and> frac this < 31) \<longrightarrow>
        0 \<le> intg this \<and> U = top_count (nat (intg this)) * 2 ^ nat (frac this))"
proof -
  from set_bounds_Inr [OF assms(1)] obtain s fu h p n where
    s: "shl64 1 (frac this) = Inr s" and
    fh: "full_half (intg this) (frac this) (type this) = Inr (fu, h)" and
    lim: "limits (intg this) (frac this) (type this) (Fin (of_int s)) = Inr (p, n)" and
    t: "t = this\<lparr>shift := Fin (of_int s), full := fu, half := h, pinf := p, ninf := n\<rparr>"
    by blast
  define K where "K = nat (intg this + frac this)"
  define F where "F = nat (frac this)"
  define L :: int where "L = (if is_unsigned (type this) then 0 else - (2 ^ K))"
  have sum: "0 \<le> intg this + frac this \<and> intg this + frac this \<le> 62"
    using fh assms(3) full_half_unsigned [OF fh] full_half_signed [OF fh]
    by (cases "is_unsigned (type this)") auto
  have f0: "0 \<le> frac this \<and> frac this \<le> 63" using s by (auto simp: shl64_1_Inr_iff)
  have fu: "fu = (if is_unsigned (type this) then 2 ^ K
                  else if intg this + frac this = 62 then - (2 ^ 63) else 2 ^ Suc K)"
  proof (cases "is_unsigned (type this)")
    case True
    then show ?thesis using full_half_unsigned [OF fh True] sum by (simp add: K_def)
  next
    case False
    have "nat (intg this + frac this + 1) = Suc K" using sum by (simp add: K_def nat_add_distrib)
    then show ?thesis using full_half_signed [OF fh False] False by (simp del: power_Suc)
  qed
  have h: "h = (if is_unsigned (type this) then 0 else 2 ^ K)"
    using full_half_unsigned [OF fh] full_half_signed [OF fh]
    by (cases "is_unsigned (type this)") (simp_all add: K_def)
  have main: "\<exists>U. s = 2 ^ F \<and> p = Fin (of_int U / 2 ^ F) \<and> n = Fin (of_int L / 2 ^ F) \<and>
     0 \<le> U \<and> U \<le> 2 ^ K \<and>
     (intg this < 31 \<and> frac this < 31 \<longrightarrow> U = top_count K) \<and>
     (\<not> (intg this < 31 \<and> frac this < 31) \<longrightarrow>
        0 \<le> intg this \<and> U = top_count (nat (intg this)) * 2 ^ F)"
  proof (cases "intg this < 31 \<and> frac this < 31")
    case True
    then have sv: "s = 2 ^ F" using s f0 by (auto simp: shl64_1_Inr_iff F_def)
    from lim have lim': "limits (intg this) (frac this) (type this) (Fin (2 ^ nat (frac this))) = Inr (p, n)"
      by (simp add: sv F_def)
    from limits_exact [OF lim' assms(2)] True
    have pn: "p = Fin (of_int (top_count K) / 2 ^ F)"
      "n = (if is_unsigned (type this) then Fin 0 else Fin (- (2 ^ K) / 2 ^ F))"
      by (simp_all add: K_def F_def)
    have "n = Fin (of_int L / 2 ^ F)" using pn(2) by (simp add: L_def)
    then show ?thesis using True sv pn(1) top_count_bounds(2,3) [of K]
      by (intro exI [of _ "top_count K"]) simp
  next
    case False
    from limits_approx [OF lim assms(2) False]
    have i0: "0 \<le> intg this" "intg this \<le> 62" and
      pn: "p = Fin (of_int (top_count (nat (intg this))))"
      "n = (if is_unsigned (type this) then Fin 0 else Fin (- (2 ^ nat (intg this))))"
      by simp_all
    have f62: "frac this \<le> 62" using sum i0 by linarith
    then have sv: "s = 2 ^ F" using s f0 by (auto simp: shl64_1_Inr_iff F_def)
    have KK: "K = nat (intg this) + F"
      using i0 f0 by (simp add: nat_add_distrib K_def F_def)
    have pw: "(2::int) ^ K = 2 ^ nat (intg this) * 2 ^ F"
      by (simp add: KK power_add)
    have pwr: "(2::real) ^ K = 2 ^ nat (intg this) * 2 ^ F"
      by (simp add: KK power_add)
    have U: "top_count (nat (intg this)) * 2 ^ F \<le> (2::int) ^ K"
      unfolding pw using top_count_bounds(2) [of "nat (intg this)"]
      by (intro mult_right_mono) simp_all
    have U0: "0 \<le> top_count (nat (intg this)) * (2::int) ^ F"
      using top_count_bounds(3) [of "nat (intg this)"] by simp
    have "p = Fin (of_int (top_count (nat (intg this)) * 2 ^ F) / 2 ^ F)" using pn(1) by simp
    moreover have "n = Fin (of_int L / 2 ^ F)" using pn(2) by (simp add: L_def pwr)
    ultimately show ?thesis using False sv U U0 i0
      by (intro exI [of _ "top_count (nat (intg this)) * 2 ^ F"]) auto
  qed
  then obtain U where U: "s = 2 ^ F" "p = Fin (of_int U / 2 ^ F)" "n = Fin (of_int L / 2 ^ F)"
     "0 \<le> U" "U \<le> 2 ^ K"
     "intg this < 31 \<and> frac this < 31 \<longrightarrow> U = top_count K"
     "\<not> (intg this < 31 \<and> frac this < 31) \<longrightarrow>
        0 \<le> intg this \<and> U = top_count (nat (intg this)) * 2 ^ F"
    by blast
  have t': "t = this\<lparr>shift := Fin (2 ^ F), full := fu, half := h,
              pinf := Fin (of_int U / 2 ^ F), ninf := Fin (of_int L / 2 ^ F)\<rparr>"
    unfolding t U(1,2,3) by simp
  show ?thesis
    apply (rule exI [of _ L])
    apply (rule exI [of _ U])
    unfolding K_def [symmetric] F_def [symmetric]
    using f0 sum L_def U(4-7) t' [unfolded fu h]
    by (intro conjI) (simp_all only: simp_thms)
qed

section \<open>The grid of a configuration\<close>

lemma read_template_fields [simp]:
  "intg (read_template d c) = intg c" "frac (read_template d c) = frac c"
  "type (read_template d c) = type c" "opmode (read_template d c) = opmode c"
  "sat (read_template d c) = sat c" "rounding (read_template d c) = rounding c"
  by (simp_all add: read_template_def)

lemma rep_count_pos: "0 < rep_count c"
  by (simp add: rep_count_def)

lemma rep_count_half: "\<not> is_unsigned (type c) \<Longrightarrow> rep_count c div 2 = 2 ^ nat (intg c + frac c)"
  by (simp add: rep_count_def)

lemma wrap_count_cong: "wrap_count c m mod rep_count c = m mod rep_count c"
proof (cases "is_unsigned (type c)")
  case True
  then show ?thesis by (simp add: wrap_count_def)
next
  case False
  have "rep_count c = 2 * (rep_count c div 2)" using False by (simp add: rep_count_def)
  then have "(rep_count c div 2 + rep_count c div 2) mod rep_count c = 0"
    by (metis mod_self mult_2)
  then have "(m + rep_count c div 2 - rep_count c div 2) mod rep_count c
      = ((m + rep_count c div 2) mod rep_count c - rep_count c div 2) mod rep_count c"
    by (simp add: mod_diff_left_eq)
  then show ?thesis using False by (simp add: wrap_count_def)
qed

lemma wrap_count_in_grid: "in_grid c (wrap_count c m)"
proof (cases "is_unsigned (type c)")
  case True
  then show ?thesis using rep_count_pos [of c] by (simp add: wrap_count_def in_grid_def)
next
  case False
  have r: "rep_count c = 2 * (rep_count c div 2)" using False by (simp add: rep_count_def)
  have "0 \<le> (m + rep_count c div 2) mod rep_count c \<and>
        (m + rep_count c div 2) mod rep_count c < rep_count c"
    using rep_count_pos [of c] by simp
  then show ?thesis using False r by (simp add: wrap_count_def in_grid_def)
qed

lemma wrap_count_id: "in_grid c n \<Longrightarrow> wrap_count c n = n"
proof (cases "is_unsigned (type c)")
  case True
  assume "in_grid c n"
  with True show ?thesis by (simp add: wrap_count_def in_grid_def)
next
  case False
  assume g: "in_grid c n"
  have r: "rep_count c = 2 * (rep_count c div 2)" using False by (simp add: rep_count_def)
  have "0 \<le> n + rep_count c div 2 \<and> n + rep_count c div 2 < rep_count c"
    using g False r by (simp add: in_grid_def)
  then have "(n + rep_count c div 2) mod rep_count c = n + rep_count c div 2" by simp
  then show ?thesis using False by (simp add: wrap_count_def)
qed

text \<open>The count one beyond the grid wraps to its lowest count.\<close>

lemma wrap_count_top:
  "wrap_count c (2 ^ nat (intg c + frac c)) =
     (if is_unsigned (type c) then 0 else - (2 ^ nat (intg c + frac c)))"
  by (simp add: wrap_count_def rep_count_def)

section \<open>Quantization under the invariant\<close>

lemma pow2_62_int64: "k \<le> 62 \<Longrightarrow> (2::int) ^ k < 2 ^ 63"
  using pow2_mono [of k 62] by simp

lemma pow2_twice_int64: "k \<le> 62 \<Longrightarrow> 2 * (2::int) ^ k \<le> 2 ^ 63"
  using pow2_mono [of "Suc k" 63] by simp

lemma fields_ok_K: "fields_ok t \<Longrightarrow> nat (intg t + frac t) \<le> 62"
  unfolding fields_ok_def by arith

lemma fields_ok_K61: "fields_ok t \<Longrightarrow> intg t + frac t \<noteq> 62 \<Longrightarrow> nat (intg t + frac t) \<le> 61"
  unfolding fields_ok_def by arith

lemma in_grid_signed:
  assumes "\<not> is_unsigned (type c)" "in_grid c n"
  shows "- (2 ^ nat (intg c + frac c)) \<le> n \<and> n < 2 ^ nat (intg c + frac c)"
  using assms by (simp add: in_grid_def rep_count_def)

lemma in_grid_unsigned:
  assumes "is_unsigned (type c)" "in_grid c n"
  shows "0 \<le> n \<and> n < 2 ^ nat (intg c + frac c)"
  using assms by (simp add: in_grid_def rep_count_def)

lemma to_signed_ok:
  assumes "fields_ok t" "\<not> is_unsigned (type t)" "to_signed t (Fin v) = Inr x"
  shows "x = t\<lparr>raw_val := Fin (of_int (wrap_count t (rnd (rounding t) (v * 2 ^ nat (frac t)))))\<rparr>"
proof -
  define K where "K = nat (intg t + frac t)"
  define m where "m = rnd (rounding t) (v * 2 ^ nat (frac t))"
  have sh: "shift t = Fin (2 ^ nat (frac t))" and ha: "half t = 2 ^ K"
    using assms(1,2) by (simp_all add: fields_ok_def K_def)
  have rc: "rep_count t = 2 ^ Suc K" "rep_count t div 2 = 2 ^ K"
    using assms(2) by (simp_all add: rep_count_def K_def)
  show ?thesis
  proof (cases "intg t + frac t = 62")
    case True
    then have K62: "K = 62" by (simp add: K_def)
    have fu: "full t = - (2 ^ 63)" using assms(1,2) True by (simp add: fields_ok_def)
    have ha62: "half t = 2 ^ 62" using ha K62 by simp
    from assms(3) have x: "x = t\<lparr>raw_val := Fin (of_int m)\<rparr>" and r: "- (2 ^ 62) \<le> m \<and> m < 2 ^ 62"
      unfolding to_signed_Fin_62 [OF sh ha62 fu] m_def [symmetric] Let_def
      by (simp_all split: if_splits)
    have "in_grid t m" using r assms(2) K62 by (simp add: in_grid_def rc)
    then have "wrap_count t m = m" by (rule wrap_count_id)
    then show ?thesis using x by (simp add: m_def)
  next
    case False
    have K61: "K \<le> 61" unfolding K_def using assms(1) False by (rule fields_ok_K61)
    have fu: "full t = 2 ^ Suc K" using assms(1,2) False by (simp add: fields_ok_def K_def)
    from assms(3) have "x = t\<lparr>raw_val := Fin (of_int ((m + 2 ^ K) mod 2 ^ Suc K - 2 ^ K))\<rparr>"
      unfolding to_signed_Fin [OF sh ha fu K61] m_def [symmetric] Let_def
      by (simp split: if_splits del: power_Suc)
    then show ?thesis using assms(2) unfolding wrap_count_def rc m_def by simp
  qed
qed

lemma to_unsigned_ok:
  assumes "fields_ok t" "is_unsigned (type t)" "to_unsigned t (Fin v) = Inr x"
  shows "x = t\<lparr>raw_val := Fin (of_int (wrap_count t (rnd (rounding t) (v * 2 ^ nat (frac t)))))\<rparr>"
proof -
  define K where "K = nat (intg t + frac t)"
  define m where "m = rnd (rounding t) (v * 2 ^ nat (frac t))"
  have sh: "shift t = Fin (2 ^ nat (frac t))" and fu: "full t = 2 ^ K"
    using assms(1,2) by (simp_all add: fields_ok_def K_def)
  have K62: "K \<le> 62" unfolding K_def using assms(1) by (rule fields_ok_K)
  have rc: "rep_count t = 2 ^ K" using assms(2) by (simp add: rep_count_def K_def)
  from assms(3) have "x = t\<lparr>raw_val := Fin (of_int (m mod 2 ^ K))\<rparr>"
    unfolding to_unsigned_Fin [OF sh fu K62] m_def [symmetric] Let_def
    by (simp split: if_splits)
  then show ?thesis using assms(2) unfolding wrap_count_def rc m_def by simp
qed

lemma scaled_grid [simp]: "real_of_int n / 2 ^ F * 2 ^ F = of_int n"
  by simp

lemma to_signed_grid:
  assumes "fields_ok t" "\<not> is_unsigned (type t)" "in_grid t n"
  shows "to_signed t (Fin (of_int n / 2 ^ nat (frac t))) = Inr (t\<lparr>raw_val := Fin (of_int n)\<rparr>)"
proof -
  define K where "K = nat (intg t + frac t)"
  have sh: "shift t = Fin (2 ^ nat (frac t))" and ha: "half t = 2 ^ K"
    using assms(1,2) by (simp_all add: fields_ok_def K_def)
  have K62: "K \<le> 62" unfolding K_def using assms(1) by (rule fields_ok_K)
  have g: "- (2 ^ K) \<le> n" "n < 2 ^ K" using in_grid_signed [OF assms(2,3)] by (simp_all add: K_def)
  have b: "2 * (2::int) ^ K \<le> 2 ^ 63" using K62 by (rule pow2_twice_int64)
  have i: "in_int64 n" "in_int64 (n + 2 ^ K)"
    unfolding in_int64_def using g b by linarith+
  show ?thesis
  proof (cases "intg t + frac t = 62")
    case True
    then have K62: "K = 62" by (simp add: K_def)
    have fu: "full t = - (2 ^ 63)" using assms(1,2) True by (simp add: fields_ok_def)
    have ha62: "half t = 2 ^ 62" using ha K62 by simp
    show ?thesis
      unfolding to_signed_Fin_62 [OF sh ha62 fu] Let_def scaled_grid rnd_of_int trunc_of_int
      using g i K62 by simp
  next
    case False
    have K61: "K \<le> 61" unfolding K_def using assms(1) False by (rule fields_ok_K61)
    have fu: "full t = 2 ^ Suc K" using assms(1,2) False by (simp add: fields_ok_def K_def)
    have "0 \<le> n + 2 ^ K \<and> n + 2 ^ K < 2 ^ Suc K" using g by simp
    then have "(n + 2 ^ K) mod 2 ^ Suc K = n + 2 ^ K" by (simp del: power_Suc)
    then show ?thesis
      unfolding to_signed_Fin [OF sh ha fu K61] Let_def scaled_grid rnd_of_int trunc_of_int
      using i by (simp del: power_Suc)
  qed
qed

lemma to_unsigned_grid:
  assumes "fields_ok t" "is_unsigned (type t)" "in_grid t n"
  shows "to_unsigned t (Fin (of_int n / 2 ^ nat (frac t))) = Inr (t\<lparr>raw_val := Fin (of_int n)\<rparr>)"
proof -
  define K where "K = nat (intg t + frac t)"
  have sh: "shift t = Fin (2 ^ nat (frac t))" and fu: "full t = 2 ^ K"
    using assms(1,2) by (simp_all add: fields_ok_def K_def)
  have K62: "K \<le> 62" unfolding K_def using assms(1) by (rule fields_ok_K)
  have g: "0 \<le> n" "n < 2 ^ K" using in_grid_unsigned [OF assms(2,3)] by (simp_all add: K_def)
  have b: "(2::int) ^ K < 2 ^ 63" using K62 by (rule pow2_62_int64)
  have i: "in_int64 n" unfolding in_int64_def using g b by linarith
  have "n mod 2 ^ K = n" using g by simp
  then show ?thesis
    unfolding to_unsigned_Fin [OF sh fu K62] Let_def scaled_grid rnd_of_int trunc_of_int
    using i by simp
qed

lemma dle_Fin [simp]: "dle (Fin a) (Fin b) \<longleftrightarrow> a \<le> b"
  by (auto simp: dle_def deq_def)

lemma to_signed_not_Fin:
  assumes "w = PInf \<or> w = NInf \<or> w = NaN" "shift t = Fin s"
  shows "to_signed t w = Inl Undefined"
  using assms(1) unfolding to_signed_def assms(2)
  by (auto simp: round_or_floor_def fastfloor_def inf_of_sign_def)

lemma to_unsigned_not_Fin:
  assumes "w = PInf \<or> w = NInf \<or> w = NaN" "shift t = Fin s"
  shows "to_unsigned t w = Inl Undefined"
  using assms(1) unfolding to_unsigned_def assms(2)
  by (auto simp: round_or_floor_def fastfloor_def inf_of_sign_def)

text \<open>A kind other than \<open>d_FLOAT\<close> stores only finite values.\<close>

lemma store_Inr_Fin:
  assumes "store t w = Inr x" "type t \<noteq> d_FLOAT" "shift t = Fin s"
  shows "\<exists>v. w = Fin v"
proof (cases w)
  case (Fin v)
  then show ?thesis by blast
next
  case PInf
  then have nf: "w = PInf \<or> w = NInf \<or> w = NaN" by simp
  have "to_signed t w = Inl Undefined" "to_unsigned t w = Inl Undefined"
    using nf assms(3) by (rule to_signed_not_Fin, rule to_unsigned_not_Fin)
  then have "store t w \<noteq> Inr x"
    using assms(2) by (cases "type t") (auto simp: store_def ebind_def c_assert_def)
  with assms(1) show ?thesis by blast
next
  case NInf
  then have nf: "w = PInf \<or> w = NInf \<or> w = NaN" by simp
  have "to_signed t w = Inl Undefined" "to_unsigned t w = Inl Undefined"
    using nf assms(3) by (rule to_signed_not_Fin, rule to_unsigned_not_Fin)
  then have "store t w \<noteq> Inr x"
    using assms(2) by (cases "type t") (auto simp: store_def ebind_def c_assert_def)
  with assms(1) show ?thesis by blast
next
  case NaN
  then have nf: "w = PInf \<or> w = NInf \<or> w = NaN" by simp
  have "to_signed t w = Inl Undefined" "to_unsigned t w = Inl Undefined"
    using nf assms(3) by (rule to_signed_not_Fin, rule to_unsigned_not_Fin)
  then have "store t w \<noteq> Inr x"
    using assms(2) by (cases "type t") (auto simp: store_def ebind_def c_assert_def)
  with assms(1) show ?thesis by blast
qed

lemma store_ok:
  assumes "fields_ok t" "type t \<noteq> d_FLOAT" "store t (Fin v) = Inr x"
  shows "x = t\<lparr>raw_val := Fin (of_int (wrap_count t (rnd (rounding t) (v * 2 ^ nat (frac t)))))\<rparr> \<and>
         (is_intkind (type t) \<longrightarrow> frac t = 0) \<and> (is_unsigned (type t) \<longrightarrow> 0 \<le> v)"
proof (cases "is_unsigned (type t)")
  case True
  then have "to_unsigned t (Fin v) = Inr x \<and> (is_intkind (type t) \<longrightarrow> frac t = 0) \<and> 0 \<le> v"
    using assms(3)
    by (cases "type t")
       (auto simp: store_def is_unsigned_def is_intkind_def ebind_Inr_iff c_assert_Inr_iff)
  then show ?thesis using to_unsigned_ok [OF assms(1) True] True by simp
next
  case False
  then have "to_signed t (Fin v) = Inr x \<and> (is_intkind (type t) \<longrightarrow> frac t = 0)"
    using assms(2,3)
    by (cases "type t")
       (auto simp: store_def is_unsigned_def is_intkind_def ebind_Inr_iff c_assert_Inr_iff)
  then show ?thesis using to_signed_ok [OF assms(1) False] False by simp
qed

lemma store_grid:
  assumes "fields_ok t" "type t \<noteq> d_FLOAT" "in_grid t n" "is_intkind (type t) \<longrightarrow> frac t = 0"
  shows "store t (Fin (of_int n / 2 ^ nat (frac t))) = Inr (t\<lparr>raw_val := Fin (of_int n)\<rparr>)"
proof (cases "is_unsigned (type t)")
  case True
  have "0 \<le> n" using in_grid_unsigned [OF True assms(3)] by simp
  then have nn: "dle (Fin 0) (Fin (of_int n / 2 ^ nat (frac t)))"
    by simp
  show ?thesis
    using True assms(4) to_unsigned_grid [OF assms(1) True assms(3)] nn
    by (cases "type t") (simp_all add: store_def is_unsigned_def is_intkind_def c_assert_def)
next
  case False
  show ?thesis
    using False assms(2,4) to_signed_grid [OF assms(1) False assms(3)]
    by (cases "type t") (simp_all add: store_def is_unsigned_def is_intkind_def c_assert_def)
qed

section \<open>The constructor\<close>

lemma set_bounds_config:
  assumes "set_bounds this = Inr t"
  shows "intg t = intg this \<and> frac t = frac this \<and> type t = type this \<and>
         opmode t = opmode this \<and> sat t = sat this \<and> rounding t = rounding this \<and>
         raw_val t = raw_val this"
  using set_bounds_Inr [OF assms] by auto

lemma set_bounds_float:
  assumes "set_bounds this = Inr t" "type this = d_FLOAT"
  shows "pinf t = PInf \<and> ninf t = NInf"
  using set_bounds_Inr [OF assms(1)] assms(2) by (auto simp: limits_def)

text \<open>
  After \<open>_set_bounds\<close> and the assertion on the combined width, an object that is not
  \<open>d_FLOAT\<close> satisfies the invariant; its negative bound is a grid value, and so is its
  positive bound up to 53 bits, beyond which it can be the count one above the grid.
\<close>

lemma set_bounds_obj:
  assumes "set_bounds this = Inr t" "type this \<noteq> d_FLOAT" "intg this + frac this < 63"
  shows "fields_ok t \<and>
         (\<exists>L U. pinf t = Fin (of_int U / 2 ^ nat (frac t)) \<and>
                ninf t = Fin (of_int L / 2 ^ nat (frac t)) \<and>
                in_grid t L \<and> L \<le> 0 \<and> 0 \<le> U \<and>
                L = (if is_unsigned (type t) then 0 else - (2 ^ nat (intg t + frac t))) \<and>
                U \<le> 2 ^ nat (intg t + frac t) \<and>
                (nat (intg t + frac t) \<le> 53 \<longrightarrow> in_grid t U) \<and>
                (intg t < 31 \<and> frac t < 31 \<longrightarrow> 2 ^ nat (intg t + frac t) - 1 \<le> U))"
proof -
  note cfg = set_bounds_config [OF assms(1)]
  from set_bounds_nonfloat [OF assms] obtain L U where
    f0: "0 \<le> frac this" "0 \<le> intg this + frac this" and
    t: "t = this\<lparr>shift := Fin (2 ^ nat (frac this)),
              full := (if is_unsigned (type this) then 2 ^ nat (intg this + frac this)
                       else if intg this + frac this = 62 then - (2 ^ 63)
                       else 2 ^ Suc (nat (intg this + frac this))),
              half := (if is_unsigned (type this) then 0 else 2 ^ nat (intg this + frac this)),
              pinf := Fin (of_int U / 2 ^ nat (frac this)),
              ninf := Fin (of_int L / 2 ^ nat (frac this))\<rparr>" and
    L: "L = (if is_unsigned (type this) then 0 else - (2 ^ nat (intg this + frac this)))" and
    U: "0 \<le> U" "U \<le> 2 ^ nat (intg this + frac this)" and
    Ue: "intg this < 31 \<and> frac this < 31 \<longrightarrow> U = top_count (nat (intg this + frac this))" and
    Ua: "\<not> (intg this < 31 \<and> frac this < 31) \<longrightarrow>
        0 \<le> intg this \<and> U = top_count (nat (intg this)) * 2 ^ nat (frac this)"
    by blast
  have fo: "fields_ok t"
    unfolding fields_ok_def using f0 assms(3) by (simp add: t)
  have p: "pinf t = Fin (of_int U / 2 ^ nat (frac t))" "ninf t = Fin (of_int L / 2 ^ nat (frac t))"
    by (simp_all add: t)
  have gL: "in_grid t L" using L cfg by (simp add: in_grid_def rep_count_def)
  have L0: "L \<le> 0" using L by simp
  have L': "L = (if is_unsigned (type t) then 0 else - (2 ^ nat (intg t + frac t)))"
    using L cfg by simp
  have U': "U \<le> 2 ^ nat (intg t + frac t)" using U(2) cfg by simp
  have lt: "U < 2 ^ nat (intg this + frac this)" if k: "nat (intg this + frac this) \<le> 53"
  proof (cases "intg this < 31 \<and> frac this < 31")
    case True
    with Ue k show ?thesis by (simp add: top_count_exact)
  next
    case False
    with Ua have i0: "0 \<le> intg this" and
      Uv: "U = top_count (nat (intg this)) * 2 ^ nat (frac this)" by simp_all
    have "nat (intg this) \<le> 53" using k f0 i0 by arith
    then have tc: "top_count (nat (intg this)) = 2 ^ nat (intg this) - 1" by (rule top_count_exact)
    have KK: "nat (intg this + frac this) = nat (intg this) + nat (frac this)"
      using i0 f0 by (simp add: nat_add_distrib)
    have "(2 ^ nat (intg this) - 1) * 2 ^ nat (frac this) < (2::int) ^ nat (intg this) * 2 ^ nat (frac this)"
      by (simp add: mult_strict_right_mono)
    then show ?thesis unfolding Uv tc KK by (simp add: power_add)
  qed
  have gU: "nat (intg t + frac t) \<le> 53 \<longrightarrow> in_grid t U"
  proof
    assume "nat (intg t + frac t) \<le> 53"
    then have a: "U < 2 ^ nat (intg t + frac t)" using lt cfg by simp
    have "(0::int) < 2 ^ nat (intg t + frac t)" by simp
    with U(1) have b: "- (2 ^ nat (intg t + frac t)) \<le> U" by linarith
    show "in_grid t U" using a b U(1) by (simp add: in_grid_def rep_count_def)
  qed
  have lb: "intg t < 31 \<and> frac t < 31 \<longrightarrow> 2 ^ nat (intg t + frac t) - 1 \<le> U"
    using Ue cfg top_count_bounds(1) [of "nat (intg this + frac this)"] by auto
  show ?thesis using fo p gL L0 U(1) L' U' gU lb by (intro conjI exI) assumption+
qed

lemma FXP_new_Inr:
  assumes "FXP_new v c = Inr x"
  shows "\<exists>t. set_bounds (read_template FXP_default c) = Inr t \<and> intg c + frac c < 63 \<and>
             store t (saturate t (map_inf t v)) = Inr x \<and> dle (Fin 0) (dmul v (raw_val x))"
proof -
  from assms obtain t where t: "set_bounds (read_template FXP_default c) = Inr t"
    and sv: "set_val t v = Inr x"
    by (auto simp: FXP_new_def ebind_Inr_iff)
  note cfg = set_bounds_config [OF t]
  from sv have "intg t + frac t < 63 \<and> store t (saturate t (map_inf t v)) = Inr x \<and>
      dle (Fin 0) (dmul v (raw_val x))"
    by (auto simp: set_val_def Let_def ebind_Inr_iff c_assert_Inr_iff)
  with t cfg show ?thesis by auto
qed

lemma FXP_new_eval:
  assumes "set_bounds (read_template FXP_default c) = Inr t" "intg c + frac c < 63"
    "store t (saturate t (map_inf t v)) = Inr x" "dle (Fin 0) (dmul v (raw_val x))"
  shows "FXP_new v c = Inr x"
proof -
  note cfg = set_bounds_config [OF assms(1)]
  have "set_val t v = Inr x"
    using assms(2,3,4) cfg by (simp add: set_val_def Let_def c_assert_def)
  then show ?thesis by (simp add: FXP_new_def assms(1))
qed

lemma map_inf_Fin [simp]: "map_inf t (Fin v) = Fin v"
  by (simp add: map_inf_def deq_def)

lemma saturate_Fin:
  assumes "pinf t = Fin P" "ninf t = Fin N" "N \<le> P"
  shows "saturate t (Fin v) =
           Fin (if sat t then (if P < v then P else if v < N then N else v) else v)"
  using assms by (simp add: saturate_def)

lemma saturate_between:
  assumes "pinf t = Fin P" "ninf t = Fin N" "N \<le> P" "sat t"
  shows "\<exists>w. saturate t (Fin v) = Fin w \<and> N \<le> w \<and> w \<le> P"
  using assms by (auto simp: saturate_Fin)

lemma saturate_range:
  assumes "pinf t = Fin P" "ninf t = Fin N" "N \<le> P" "sat t" "saturate t u = Fin w"
  shows "N \<le> w \<and> w \<le> P"
  using assms by (cases u) (auto simp: saturate_def split: if_splits)

lemma saturate_inside:
  assumes "pinf t = Fin P" "ninf t = Fin N" "N \<le> v" "v \<le> P"
  shows "saturate t (Fin v) = Fin v"
  using assms by (simp add: saturate_def)

lemma saturate_off: "\<not> sat t \<Longrightarrow> saturate t u = u"
  by (simp add: saturate_def)

lemma grid_config:
  assumes "intg t = intg c" "frac t = frac c" "type t = type c"
  shows "rep_count t = rep_count c" "in_grid t n = in_grid c n" "wrap_count t m = wrap_count c m"
  using assms by (simp_all add: rep_count_def in_grid_def wrap_count_def)

lemma in_grid_between:
  assumes "in_grid c L" "in_grid c U" "L \<le> m" "m \<le> U"
  shows "in_grid c m"
  using assms by (auto simp: in_grid_def split: if_splits)

lemma scaled_le: "real_of_int L / 2 ^ F \<le> w \<Longrightarrow> of_int L \<le> w * 2 ^ F"
  by (simp add: pos_divide_le_eq)

lemma le_scaled: "w \<le> real_of_int U / 2 ^ F \<Longrightarrow> w * 2 ^ F \<le> of_int U"
  by (simp add: pos_le_divide_eq)

lemma div_pow2_mono: "(L::int) \<le> U \<Longrightarrow> real_of_int L / 2 ^ F \<le> real_of_int U / 2 ^ F"
  by (simp add: divide_right_mono)

text \<open>What a successful construction of a kind other than \<open>d_FLOAT\<close> has done.\<close>

lemma quantize_Inr:
  assumes "FXP_new v c = Inr x" "type c \<noteq> d_FLOAT"
  shows "\<exists>t n L U w.
     set_bounds (read_template FXP_default c) = Inr t \<and> intg c + frac c < 63 \<and>
     fields_ok t \<and> (is_intkind (type t) \<longrightarrow> frac t = 0) \<and>
     pinf t = Fin (of_int U / 2 ^ nat (frac t)) \<and> ninf t = Fin (of_int L / 2 ^ nat (frac t)) \<and>
     in_grid t L \<and> L \<le> 0 \<and> 0 \<le> U \<and>
     saturate t (map_inf t v) = Fin w \<and>
     n = wrap_count t (rnd (rounding t) (w * 2 ^ nat (frac t))) \<and>
     x = t\<lparr>raw_val := Fin (of_int n)\<rparr> \<and> in_grid t n \<and>
     (sat t \<longrightarrow> L \<le> n \<and> n \<le> U)"
proof -
  from FXP_new_Inr [OF assms(1)] obtain t where
    sb: "set_bounds (read_template FXP_default c) = Inr t" and wd: "intg c + frac c < 63" and
    st: "store t (saturate t (map_inf t v)) = Inr x"
    by blast
  have cfg: "intg t = intg c" "frac t = frac c" "type t = type c"
    using set_bounds_config [OF sb] by simp_all
  have ty: "type t \<noteq> d_FLOAT" using assms(2) cfg by simp
  have ty': "type (read_template FXP_default c) \<noteq> d_FLOAT" using assms(2) by simp
  have wd': "intg (read_template FXP_default c) + frac (read_template FXP_default c) < 63"
    using wd by simp
  from set_bounds_obj [OF sb ty' wd'] obtain L U where fo: "fields_ok t" and
    p: "pinf t = Fin (of_int U / 2 ^ nat (frac t))" "ninf t = Fin (of_int L / 2 ^ nat (frac t))" and
    g: "in_grid t L" and LU: "L \<le> 0" "0 \<le> U" and
    Lv: "L = (if is_unsigned (type t) then 0 else - (2 ^ nat (intg t + frac t)))" and
    Ub: "U \<le> 2 ^ nat (intg t + frac t)"
    by blast
  have sh: "shift t = Fin (2 ^ nat (frac t))" using fo by (simp add: fields_ok_def)
  from store_Inr_Fin [OF st ty sh] obtain w where w: "saturate t (map_inf t v) = Fin w" by blast
  define n where "n = wrap_count t (rnd (rounding t) (w * 2 ^ nat (frac t)))"
  from store_ok [OF fo ty st [unfolded w]]
  have x: "x = t\<lparr>raw_val := Fin (of_int n)\<rparr>" and ik: "is_intkind (type t) \<longrightarrow> frac t = 0"
    by (simp_all add: n_def)
  have gn: "in_grid t n" unfolding n_def by (rule wrap_count_in_grid)
  have sn: "L \<le> n \<and> n \<le> U" if s: "sat t"
  proof -
    define m where "m = rnd (rounding t) (w * 2 ^ nat (frac t))"
    have le: "real_of_int L / 2 ^ nat (frac t) \<le> real_of_int U / 2 ^ nat (frac t)"
      using LU by (intro div_pow2_mono) simp
    from saturate_range [OF p le s w]
    have "of_int L \<le> w * 2 ^ nat (frac t)" "w * 2 ^ nat (frac t) \<le> of_int U"
      by (simp_all add: scaled_le le_scaled)
    then have b: "L \<le> m \<and> m \<le> U" unfolding m_def by (rule rnd_between)
    show ?thesis
    proof (cases "m < 2 ^ nat (intg t + frac t)")
      case True
      then have "in_grid t m" using b Lv by (simp add: in_grid_def rep_count_def split: if_splits)
      then have "n = m" unfolding n_def m_def [symmetric] by (rule wrap_count_id)
      with b show ?thesis by simp
    next
      case False
      with b Ub have "m = 2 ^ nat (intg t + frac t)" by linarith
      then have "n = L" unfolding n_def m_def [symmetric] Lv by (simp only: wrap_count_top)
      with LU show ?thesis by simp
    qed
  qed
  from sn have sn': "sat t \<longrightarrow> L \<le> n \<and> n \<le> U" by blast
  have "set_bounds (read_template FXP_default c) = Inr t \<and> intg c + frac c < 63 \<and>
     fields_ok t \<and> (is_intkind (type t) \<longrightarrow> frac t = 0) \<and>
     pinf t = Fin (of_int U / 2 ^ nat (frac t)) \<and> ninf t = Fin (of_int L / 2 ^ nat (frac t)) \<and>
     in_grid t L \<and> L \<le> 0 \<and> 0 \<le> U \<and>
     saturate t (map_inf t v) = Fin w \<and>
     n = wrap_count t (rnd (rounding t) (w * 2 ^ nat (frac t))) \<and>
     x = t\<lparr>raw_val := Fin (of_int n)\<rparr> \<and> in_grid t n \<and>
     (sat t \<longrightarrow> L \<le> n \<and> n \<le> U)"
    using sb wd fo ik p g LU w n_def x gn sn' by (intro conjI) assumption+
  then show ?thesis by (intro exI)
qed

lemma dless_inf [simp]: "dless PInf v = False" "dless v NInf = False"
  by (cases v; simp)+

lemma dle_inf [simp]: "dle (Fin a) PInf" "dle NInf (Fin a)" "dle NInf PInf" "dle PInf PInf" "dle NInf NInf"
  by (simp_all add: dle_def deq_def)

lemma float_passes_through:
  assumes "pinf t = PInf" "ninf t = NInf"
  shows "saturate t (map_inf t v) = v"
  using assms by (cases v) (simp_all add: saturate_def map_inf_def deq_def)

lemma quantize_float:
  assumes "FXP_new v c = Inr x" "type c = d_FLOAT"
  shows "\<exists>t. set_bounds (read_template FXP_default c) = Inr t \<and> intg c + frac c < 63 \<and>
             pinf t = PInf \<and> ninf t = NInf \<and> x = t\<lparr>raw_val := v\<rparr> \<and> v \<noteq> NaN"
proof -
  from FXP_new_Inr [OF assms(1)] obtain t where
    sb: "set_bounds (read_template FXP_default c) = Inr t" and wd: "intg c + frac c < 63" and
    st: "store t (saturate t (map_inf t v)) = Inr x" and sg: "dle (Fin 0) (dmul v (raw_val x))"
    by blast
  have ty: "type t = d_FLOAT" using set_bounds_config [OF sb] assms(2) by simp
  have ty': "type (read_template FXP_default c) = d_FLOAT" using assms(2) by simp
  note b = set_bounds_float [OF sb ty']
  have x: "x = t\<lparr>raw_val := v\<rparr>"
    using st ty by (simp add: float_passes_through b store_def)
  have "v \<noteq> NaN" using sg x by (auto simp: dle_def deq_def)
  with sb wd b x show ?thesis by blast
qed

section \<open>Shift right\<close>

text \<open>
  C1. The claim: \<open>a >> k\<close> has the real value of \<open>a\<close> divided by \<open>2 ^ k\<close>, integer width
  \<open>max (a.intg - k) 0\<close> and fractional width \<open>a.frac + k\<close>. The code takes \<open>fastmin\<close>
  where \<open>operator<<\<close> takes \<open>fastmax\<close>, so the integer width of the result is never
  positive. For \<open>var_4\<close> (widths 7 and 1, real value 39.5) shifted by 3 the result has
  integer width 0, not 4, and the quotient 4.9375 wraps to 0.9375.
\<close>

theorem shr_var_4_by_3:
  "val var_4 = Fin (79 / 2) \<and>
   op_shr var_4 3 =
     Inr \<lparr>intg = 0, frac = 4, type = d_FXP, opmode = FIXEDFRAC, sat = False, rounding = False,
          raw_val = Fin 15, pinf = Fin (15 / 16), ninf = Fin (- 1), shift = Fin 16,
          full = 32, half = 16\<rparr> \<and>
   ddiv (val var_4) (Fin 8) = Fin (79 / 16) \<and>
   fastmin (intg var_4 - 3) 0 = 0 \<and> fastmax (intg var_4 - 3) 0 = 4"
  by (simp add: ctor_eval op_eval var_4_def)

section \<open>The unsigned-with-signed example\<close>

text \<open>
  C5. Adding the 3-bit unsigned integer 3 and the 3-bit signed integer -3 (both
  \<open>FIXEDFRAC\<close>, same policies) gives, in either operand order, a \<open>d_INT\<close> of integer
  width 4 and fractional width 0 whose real value is 0.
\<close>

theorem add_uint_1_int_1:
  "FXP_new (Fin 3) (mk_tuple 3 0 d_UINT FIXEDFRAC False False) = Inr uint_1 \<and>
   FXP_new (Fin (- 3)) (mk_tuple 3 0 d_INT FIXEDFRAC False False) = Inr int_1 \<and>
   add uint_1 int_1 = add int_1 uint_1 \<and>
   add uint_1 int_1 =
     Inr \<lparr>intg = 4, frac = 0, type = d_INT, opmode = FIXEDFRAC, sat = False, rounding = False,
          raw_val = Fin 0, pinf = Fin 15, ninf = Fin (- 16), shift = Fin 1,
          full = 32, half = 16\<rparr> \<and>
   val \<lparr>intg = 4, frac = 0, type = d_INT, opmode = FIXEDFRAC, sat = False, rounding = False,
        raw_val = Fin 0, pinf = Fin 15, ninf = Fin (- 16), shift = Fin 1,
        full = 32, half = 16\<rparr> = Fin 0"
  by (simp add: ctor_eval op_eval uint_1_def int_1_def)

section \<open>The threshold of the bounds calculator\<close>

lemma var_1_set_bounds:
  "set_bounds (read_template FXP_default (mk_tuple 30 10 d_FXP FULL False False)) = Inr var_1_bounds"
  by (simp add: ctor_eval var_1_bounds_def)

text \<open>
  With the threshold on the combined width, the widths 30 and 10 of \<open>var_1\<close> (combined
  40) would get the approximation \<open>2 ^ 30 - 1\<close>. The code tests each width against 31 on
  its own, and both pass: the positive bound is \<open>(2 ^ 40 - 1) / 2 ^ 10\<close>.
\<close>

theorem bounds_30_10_exact_beyond_31:
  "set_bounds (read_template FXP_default (mk_tuple 30 10 d_FXP FULL False False)) = Inr var_1_bounds \<and>
   (pinf var_1_bounds, ninf var_1_bounds) \<noteq> bounds_claimed 30 10 d_FXP \<and>
   (pinf var_1_bounds, ninf var_1_bounds) = bounds_exact 30 10 d_FXP"
  by (simp add: var_1_set_bounds)
     (simp add: var_1_bounds_def bounds_claimed_def bounds_exact_def bounds_approx_def is_unsigned_def)

text \<open>
  Beyond 53 bits the formula and the bound part: for the widths 30 and 30 both tests pass,
  but \<open>2 ^ 60 - 1\<close> is no binary64 number and converts to \<open>2 ^ 60\<close>, so the positive bound
  is \<open>2 ^ 30\<close>.
\<close>

lemma rd_2_60_minus_1: "rd 1152921504606846975 = Fin 1152921504606846976"
  using rd_pow2m1 [of 60] by simp

lemma bounds_30_30_rounded:
  "set_bounds (read_template FXP_default (mk_tuple 30 30 d_UFXP FULL True False)) =
     Inr \<lparr>intg = 30, frac = 30, type = d_UFXP, opmode = FULL, sat = True, rounding = False,
          raw_val = Fin 0, pinf = Fin 1073741824, ninf = Fin 0, shift = Fin 1073741824,
          full = 1152921504606846976, half = 0\<rparr>"
  by (simp add: ctor_eval rd_2_60_minus_1)

text \<open>
  C2, amended. For every configuration that is not \<open>d_FLOAT\<close> and whose combined width is
  at most 53 bits (the widths whose counts a double holds exactly), the bounds calculator
  uses the exact formulas precisely when the integer width is below 31 and the fractional
  width is below 31, and the integer-width-only approximation precisely when one of the
  two widths is 31 or more.
\<close>

theorem set_bounds_threshold:
  assumes "set_bounds this = Inr t" "type this \<noteq> d_FLOAT" "intg this + frac this \<le> 53"
  shows "(pinf t, ninf t) =
           (if intg this < 31 \<and> frac this < 31
            then bounds_exact (intg this) (frac this) (type this)
            else bounds_approx (intg this) (type this))"
proof -
  from set_bounds_Inr [OF assms(1)] obtain s fu h p n where
    s: "shl64 1 (frac this) = Inr s" and
    lim: "limits (intg this) (frac this) (type this) (Fin (of_int s)) = Inr (p, n)" and
    t: "t = this\<lparr>shift := Fin (of_int s), full := fu, half := h, pinf := p, ninf := n\<rparr>"
    by blast
  have pn: "pinf t = p" "ninf t = n" by (simp_all add: t)
  have f0: "0 \<le> frac this" using s by (auto simp: shl64_1_Inr_iff)
  show ?thesis
  proof (cases "intg this < 31 \<and> frac this < 31")
    case True
    then have "s = 2 ^ nat (frac this)" using s by (auto simp: shl64_1_Inr_iff)
    with lim have "limits (intg this) (frac this) (type this) (Fin (2 ^ nat (frac this))) = Inr (p, n)"
      by simp
    from limits_exact [OF this assms(2)] True
    have e: "p = Fin (of_int (top_count (nat (intg this + frac this))) / 2 ^ nat (frac this))"
      "n = (if is_unsigned (type this) then Fin 0
            else Fin (- (2 ^ nat (intg this + frac this)) / 2 ^ nat (frac this)))"
      by simp_all
    have "nat (intg this + frac this) \<le> 53" using assms(3) by arith
    then have "top_count (nat (intg this + frac this)) = 2 ^ nat (intg this + frac this) - 1"
      by (rule top_count_exact)
    with e True show ?thesis by (simp add: pn bounds_exact_def)
  next
    case False
    from limits_approx [OF lim assms(2) False]
    have a: "0 \<le> intg this" "p = Fin (of_int (top_count (nat (intg this))))"
      "n = (if is_unsigned (type this) then Fin 0 else Fin (- (2 ^ nat (intg this))))"
      by simp_all
    have "nat (intg this) \<le> 53" using assms(3) f0 by arith
    then have "top_count (nat (intg this)) = 2 ^ nat (intg this) - 1" by (rule top_count_exact)
    with a False show ?thesis by (auto simp: pn bounds_approx_def)
  qed
qed

theorem set_bounds_threshold_witness:
  "set_bounds (read_template FXP_default (mk_tuple 30 10 d_FXP FULL False False)) = Inr var_1_bounds \<and>
   type (read_template FXP_default (mk_tuple 30 10 d_FXP FULL False False)) \<noteq> d_FLOAT \<and>
   (pinf var_1_bounds, ninf var_1_bounds) = bounds_exact 30 10 d_FXP"
proof -
  have ty: "type (read_template FXP_default (mk_tuple 30 10 d_FXP FULL False False)) \<noteq> d_FLOAT"
    by (simp add: read_template_def mk_tuple_def)
  have wd: "intg (read_template FXP_default (mk_tuple 30 10 d_FXP FULL False False)) +
            frac (read_template FXP_default (mk_tuple 30 10 d_FXP FULL False False)) \<le> 53"
    by (simp add: read_template_def mk_tuple_def)
  from set_bounds_threshold [OF var_1_set_bounds ty wd] show ?thesis
    by (simp add: var_1_set_bounds) (simp add: read_template_def mk_tuple_def)
qed

section \<open>Quantization: saturation and idempotence\<close>

lemma sat_100_new:
  "FXP_new (Fin 100) (mk_tuple 3 0 d_INT FIXEDFRAC True False) =
     Inr \<lparr>intg = 3, frac = 0, type = d_INT, opmode = FIXEDFRAC, sat = True, rounding = False,
          raw_val = Fin 7, pinf = Fin 7, ninf = Fin (- 8), shift = Fin 1, full = 16, half = 8\<rparr>"
  by (simp add: ctor_eval)

text \<open>
  Beyond 53 bits the bound that clamps is the rounded one. With 30 and 30 bits the positive
  bound is \<open>2 ^ 30\<close>, whose count \<open>2 ^ 60\<close> is one beyond the grid: an unsigned kind wraps it
  to 0, a signed kind to \<open>- 2 ^ 60\<close>, where the assertion on the sign stops the constructor.
\<close>

lemma sat_30_30_unsigned:
  "FXP_new (Fin 10000000000) (mk_tuple 30 30 d_UFXP FULL True False) = Inr clamped_30_30"
  by (simp add: ctor_eval rd_2_60_minus_1 clamped_30_30_def)

lemma sat_30_30_signed:
  "FXP_new (Fin 10000000000) (mk_tuple 30 30 d_FXP FULL True False) = Inl AssertSignChange"
  by (simp add: ctor_eval rd_2_60_minus_1)

text \<open>
  C6. For every real value \<open>v\<close> and every configuration \<open>c\<close> with saturation enabled,
  the real value read back from the quantization of \<open>v\<close> into \<open>c\<close> lies between the
  negative and the positive bound of \<open>c\<close> (the bounds the object carries).
\<close>

theorem saturated_within_bounds:
  assumes "sat c" "FXP_new (Fin v) c = Inr x"
  shows "dle (ninf x) (val x) \<and> dle (val x) (pinf x)"
proof (cases "type c = d_FLOAT")
  case True
  from quantize_float [OF assms(2) True] obtain t where
    sb: "set_bounds (read_template FXP_default c) = Inr t" and
    b: "pinf t = PInf" "ninf t = NInf" and x: "x = t\<lparr>raw_val := Fin v\<rparr>"
    by blast
  have "type t = d_FLOAT" using set_bounds_config [OF sb] True by simp
  then show ?thesis by (simp add: x b val_def)
next
  case False
  from quantize_Inr [OF assms(2) False] obtain t n L U where
    sb: "set_bounds (read_template FXP_default c) = Inr t" and fo: "fields_ok t" and
    p: "pinf t = Fin (of_int U / 2 ^ nat (frac t))" "ninf t = Fin (of_int L / 2 ^ nat (frac t))" and
    x: "x = t\<lparr>raw_val := Fin (of_int n)\<rparr>" and sn: "sat t \<longrightarrow> L \<le> n \<and> n \<le> U"
    by blast
  have cfg: "type t = type c" "sat t = sat c" using set_bounds_config [OF sb] by simp_all
  have sh: "shift t = Fin (2 ^ nat (frac t))" using fo by (simp add: fields_ok_def)
  have v: "val x = Fin (of_int n / 2 ^ nat (frac t))"
    using False cfg by (simp add: val_def x sh)
  have "L \<le> n" "n \<le> U" using sn cfg assms(1) by simp_all
  then have "real_of_int L / 2 ^ nat (frac t) \<le> real_of_int n / 2 ^ nat (frac t)"
    "real_of_int n / 2 ^ nat (frac t) \<le> real_of_int U / 2 ^ nat (frac t)"
    by (simp_all add: div_pow2_mono)
  then show ?thesis unfolding v by (simp add: x p)
qed

theorem saturated_within_bounds_witness:
  "sat (mk_tuple 3 0 d_INT FIXEDFRAC True False) \<and>
   (\<exists>x. FXP_new (Fin 100) (mk_tuple 3 0 d_INT FIXEDFRAC True False) = Inr x \<and>
        val x = Fin 7 \<and> dle (ninf x) (val x) \<and> dle (val x) (pinf x)) \<and>
   sat (mk_tuple 30 30 d_UFXP FULL True False) \<and>
   FXP_new (Fin 10000000000) (mk_tuple 30 30 d_UFXP FULL True False) = Inr clamped_30_30 \<and>
   val clamped_30_30 = Fin 0 \<and> pinf clamped_30_30 = Fin (2 ^ 30) \<and>
   dle (ninf clamped_30_30) (val clamped_30_30) \<and> dle (val clamped_30_30) (pinf clamped_30_30)"
proof -
  have s: "sat (mk_tuple 3 0 d_INT FIXEDFRAC True False)"
    and w: "sat (mk_tuple 30 30 d_UFXP FULL True False)"
    by (simp_all add: mk_tuple_def)
  from saturated_within_bounds [OF s sat_100_new] s
  have a: "\<exists>x. FXP_new (Fin 100) (mk_tuple 3 0 d_INT FIXEDFRAC True False) = Inr x \<and>
        val x = Fin 7 \<and> dle (ninf x) (val x) \<and> dle (val x) (pinf x)"
    by (simp add: sat_100_new) (simp add: val_def)
  note b = saturated_within_bounds [OF w sat_30_30_unsigned]
  have v: "val clamped_30_30 = Fin 0" "pinf clamped_30_30 = Fin (2 ^ 30)"
    by (simp_all add: val_def clamped_30_30_def)
  show ?thesis using b by (intro conjI s a w sat_30_30_unsigned v) simp_all
qed

text \<open>
  C8. Quantization is idempotent: for every value \<open>v\<close> (the infinities included) and
  every configuration \<open>c\<close>, quantizing the real value read back from the quantization of
  \<open>v\<close> into \<open>c\<close> again into \<open>c\<close> gives the same object.
\<close>

theorem quantize_idempotent:
  assumes "FXP_new v c = Inr x"
  shows "FXP_new (val x) c = Inr x"
proof (cases "type c = d_FLOAT")
  case True
  from quantize_float [OF assms True] obtain t where
    sb: "set_bounds (read_template FXP_default c) = Inr t" and wd: "intg c + frac c < 63" and
    b: "pinf t = PInf" "ninf t = NInf" and x: "x = t\<lparr>raw_val := v\<rparr>" and nn: "v \<noteq> NaN"
    by blast
  have ty: "type t = d_FLOAT" using set_bounds_config [OF sb] True by simp
  have vx: "val x = v" using ty by (simp add: val_def x)
  have st: "store t (saturate t (map_inf t v)) = Inr x"
    using ty by (simp add: float_passes_through b store_def x)
  have sg: "dle (Fin 0) (dmul v (raw_val x))"
    using nn by (cases v) (simp_all add: x)
  show ?thesis unfolding vx using sb wd st sg by (rule FXP_new_eval)
next
  case False
  from quantize_Inr [OF assms False] obtain t n L U where
    sb: "set_bounds (read_template FXP_default c) = Inr t" and wd: "intg c + frac c < 63" and
    fo: "fields_ok t" and ik: "is_intkind (type t) \<longrightarrow> frac t = 0" and
    p: "pinf t = Fin (of_int U / 2 ^ nat (frac t))" "ninf t = Fin (of_int L / 2 ^ nat (frac t))" and
    x: "x = t\<lparr>raw_val := Fin (of_int n)\<rparr>" and gn: "in_grid t n" and
    sn: "sat t \<longrightarrow> L \<le> n \<and> n \<le> U"
    by blast
  have ty: "type t \<noteq> d_FLOAT" using set_bounds_config [OF sb] False by simp
  have sh: "shift t = Fin (2 ^ nat (frac t))" using fo by (simp add: fields_ok_def)
  have vx: "val x = Fin (of_int n / 2 ^ nat (frac t))"
    using ty by (simp add: val_def x sh)
  have sa: "saturate t (Fin (of_int n / 2 ^ nat (frac t))) = Fin (of_int n / 2 ^ nat (frac t))"
  proof (cases "sat t")
    case True
    with sn have "L \<le> n" "n \<le> U" by simp_all
    then have "real_of_int L / 2 ^ nat (frac t) \<le> real_of_int n / 2 ^ nat (frac t)"
      "real_of_int n / 2 ^ nat (frac t) \<le> real_of_int U / 2 ^ nat (frac t)"
      by (simp_all add: div_pow2_mono)
    then show ?thesis by (intro saturate_inside [OF p])
  next
    case False
    then show ?thesis by (rule saturate_off)
  qed
  have st: "store t (saturate t (map_inf t (Fin (of_int n / 2 ^ nat (frac t))))) = Inr x"
    unfolding map_inf_Fin sa x by (rule store_grid [OF fo ty gn ik])
  have "0 \<le> real_of_int n / 2 ^ nat (frac t) * real_of_int n"
    by (simp add: zero_le_mult_iff zero_le_divide_iff divide_le_0_iff)
  then have sg: "dle (Fin 0) (dmul (Fin (of_int n / 2 ^ nat (frac t))) (raw_val x))"
    by (simp add: x)
  show ?thesis unfolding vx using sb wd st sg by (rule FXP_new_eval)
qed

theorem quantize_idempotent_witness:
  "FXP_new (Fin 39.987654321) (mk_tuple 7 1 d_FXP FIXEDFRAC False False) = Inr var_4 \<and>
   val var_4 = Fin (79 / 2) \<and>
   FXP_new (val var_4) (mk_tuple 7 1 d_FXP FIXEDFRAC False False) = Inr var_4 \<and>
   FXP_new (Fin 10000000000) (mk_tuple 30 30 d_UFXP FULL True False) = Inr clamped_30_30 \<and>
   val clamped_30_30 = Fin 0 \<and>
   FXP_new (val clamped_30_30) (mk_tuple 30 30 d_UFXP FULL True False) = Inr clamped_30_30"
proof -
  note a = quantize_idempotent [OF var_4_new]
  note b = quantize_idempotent [OF sat_30_30_unsigned]
  have v: "val var_4 = Fin (79 / 2)" "val clamped_30_30 = Fin 0"
    by (simp_all add: val_def var_4_def clamped_30_30_def)
  show ?thesis by (intro conjI var_4_new v a sat_30_30_unsigned b)
qed

section \<open>Operators with an integer literal\<close>

lemma floor_log2_real: "0 < n \<Longrightarrow> int (floor_log2 n) = \<lfloor>log 2 (real n)\<rfloor>"
proof (induction n rule: floor_log2.induct)
  case (1 n)
  show ?case
  proof (cases "n < 2")
    case True
    with 1(2) have "n = 1" by simp
    then show ?thesis by (simp add: floor_log2.simps)
  next
    case False
    then have "0 < n div 2" by simp
    with 1(1) False have "int (floor_log2 (n div 2)) = \<lfloor>log 2 (real (n div 2))\<rfloor>" by simp
    moreover have "\<lfloor>log 2 (real n)\<rfloor> = \<lfloor>log 2 (real (n div 2))\<rfloor> + 1"
      using False by (intro floor_log2_div2) simp
    ultimately show ?thesis using False by (simp add: floor_log2.simps [of n])
  qed
qed

lemma floor_log2_pow2: "floor_log2 (2 ^ k) = k"
proof (induction k)
  case 0
  show ?case by (simp add: floor_log2.simps)
next
  case (Suc k)
  have "\<not> (2::nat) ^ Suc k < 2" by simp
  then show ?case using Suc by (subst floor_log2.simps) simp
qed

lemma and_pow2_minus1: "(2::int) ^ k AND (2 ^ k - 1) = 0"
proof -
  have "(2::int) ^ k AND mask k = take_bit k (2 ^ k)" by (simp add: take_bit_eq_mask)
  also have "\<dots> = 0" by (simp add: take_bit_eq_mod)
  finally show ?thesis by (simp add: mask_eq_exp_minus_1)
qed

lemma pow2_of_and_zero:
  fixes b :: int
  assumes "0 < b" "b AND (b - 1) = 0"
  shows "\<exists>k. b = 2 ^ k"
  using assms
proof (induction "nat b" arbitrary: b rule: less_induct)
  case less
  show ?case
  proof (cases "b = 1")
    case True
    then have "b = 2 ^ 0" by simp
    then show ?thesis by blast
  next
    case False
    with less(2) have b2: "2 \<le> b" by simp
    have rec: "b AND (b - 1) = of_bool (odd b \<and> odd (b - 1)) + 2 * ((b div 2) AND ((b - 1) div 2))"
      by (rule and_rec)
    show ?thesis
    proof (cases "even b")
      case True
      then have d: "(b - 1) div 2 = b div 2 - 1" by (auto elim!: evenE)
      from rec True less(3) have z: "(b div 2) AND (b div 2 - 1) = 0" by (simp add: d)
      have "0 < b div 2" "nat (b div 2) < nat b" using b2 by simp_all
      from less(1) [OF this(2) this(1) z] obtain k where "b div 2 = 2 ^ k" by blast
      then have "b = 2 ^ Suc k" using True by (auto elim!: evenE)
      then show ?thesis by blast
    next
      case odd: False
      then have d: "(b - 1) div 2 = b div 2" by (auto elim!: oddE)
      from rec odd less(3) have "b div 2 = 0" by (simp add: d)
      with b2 show ?thesis by simp
    qed
  qed
qed

lemma pow2_test: "0 < b \<Longrightarrow> b AND (b - 1) = 0 \<longleftrightarrow> (\<exists>k. b = 2 ^ k)" for b :: int
  using pow2_of_and_zero and_pow2_minus1 by blast

lemma var_3_new:
  "FXP_new (Fin (- 11.123456789)) (mk_tuple 9 5 d_FXP FIXEDFRAC False False) = Inr var_3"
  by (simp add: ctor_eval var_3_def)

lemma nat_pow2: "nat ((2::int) ^ k) = 2 ^ k"
  by (simp add: nat_power_eq)

lemma lit_width_log:
  assumes "0 < n"
  shows "lit_width n = 1 + \<lfloor>log 2 (real_of_int n)\<rfloor>"
proof -
  have "0 < nat n" using assms by simp
  then have "int (floor_log2 (nat n)) = \<lfloor>log 2 (real (nat n))\<rfloor>" by (rule floor_log2_real)
  then show ?thesis using assms by (simp add: lit_width_def)
qed

lemma floor_log2_numerals: "floor_log2 4 = 2" "floor_log2 5 = 2" "floor_log2 3 = 1" "floor_log2 2 = 1"
  by (simp_all add: floor_log2.simps)

lemma shl_var_4_by_2:
  "op_shl var_4 2 =
     Inr \<lparr>intg = 9, frac = 0, type = d_FXP, opmode = FIXEDFRAC, sat = False, rounding = False,
          raw_val = Fin 158, pinf = Fin 511, ninf = Fin (- 512), shift = Fin 1,
          full = 1024, half = 512\<rparr>"
  by (simp add: ctor_eval op_eval var_4_def)

lemma lit_width_numerals: "lit_width 4 = 3" "lit_width 5 = 3" "lit_width 3 = 2"
  by (simp_all add: lit_width_def floor_log2_numerals)

lemma promote_var_4_4: "promote var_4 4 = mk_tuple 3 0 d_UINT FIXEDFRAC False False"
  by (simp add: promote_def promoted_kind_def lit_width_numerals var_4_def)

lemma promote_var_3_5: "promote var_3 5 = mk_tuple 3 0 d_UINT FIXEDFRAC False False"
  by (simp add: promote_def promoted_kind_def lit_width_numerals var_3_def)

lemma lit_4_new:
  "FXP_new (Fin 4) (mk_tuple 3 0 d_UINT FIXEDFRAC False False) =
     Inr \<lparr>intg = 3, frac = 0, type = d_UINT, opmode = FIXEDFRAC, sat = False, rounding = False,
          raw_val = Fin 4, pinf = Fin 7, ninf = Fin 0, shift = Fin 1, full = 8, half = 0\<rparr>"
  by (simp add: ctor_eval)

lemma lit_5_new:
  "FXP_new (Fin 5) (mk_tuple 3 0 d_UINT FIXEDFRAC False False) =
     Inr \<lparr>intg = 3, frac = 0, type = d_UINT, opmode = FIXEDFRAC, sat = False, rounding = False,
          raw_val = Fin 5, pinf = Fin 7, ninf = Fin 0, shift = Fin 1, full = 8, half = 0\<rparr>"
  by (simp add: ctor_eval)

lemma mul_var_4_lit_4:
  "mul var_4 \<lparr>intg = 3, frac = 0, type = d_UINT, opmode = FIXEDFRAC, sat = False, rounding = False,
          raw_val = Fin 4, pinf = Fin 7, ninf = Fin 0, shift = Fin 1, full = 8, half = 0\<rparr> =
     Inr \<lparr>intg = 10, frac = 1, type = d_FXP, opmode = FIXEDFRAC, sat = False, rounding = False,
          raw_val = Fin 316, pinf = Fin (2047 / 2), ninf = Fin (- 1024), shift = Fin 2,
          full = 4096, half = 2048\<rparr>"
  by (simp add: ctor_eval op_eval var_4_def)

lemma mul_var_3_lit_5:
  "mul var_3 \<lparr>intg = 3, frac = 0, type = d_UINT, opmode = FIXEDFRAC, sat = False, rounding = False,
          raw_val = Fin 5, pinf = Fin 7, ninf = Fin 0, shift = Fin 1, full = 8, half = 0\<rparr> =
     Inr \<lparr>intg = 12, frac = 5, type = d_FXP, opmode = FIXEDFRAC, sat = False, rounding = False,
          raw_val = Fin (- 1780), pinf = Fin (131071 / 32), ninf = Fin (- 4096), shift = Fin 32,
          full = 262144, half = 131072\<rparr>"
  by (simp add: ctor_eval op_eval var_3_def)

lemma mul_var_4_by_4: "op_mul_int var_4 4 = op_shl var_4 2"
  by (simp add: op_mul_int_def floor_log2_numerals)

text \<open>
  C10. For every object \<open>a\<close> and every negative literal \<open>b\<close> whose absolute value is a
  power of two \<open>2 ^ k\<close>, \<open>a * b\<close> is the left shift of \<open>a\<close> by \<open>k\<close>, the same result as
  \<open>a * (- b)\<close>: the sign of the literal is dropped. (The least \<open>int\<close> has no negation.)
\<close>

theorem mul_negative_power_of_two:
  assumes "b < 0" "- b = 2 ^ k" "- (2 ^ 31) < b"
  shows "op_mul_int a b = op_shl a (int k) \<and> op_mul_int a b = op_mul_int a (- b)"
proof -
  have t: "(- b) AND (- b - 1) = 0" unfolding assms(2) by (rule and_pow2_minus1)
  have l: "floor_log2 (nat (- b)) = k" unfolding assms(2) nat_pow2 by (rule floor_log2_pow2)
  have n: "b \<noteq> 0" "\<not> 0 < b" "b \<noteq> - (2 ^ 31)" "- b \<noteq> 0" "0 < - b" using assms(1,3) by simp_all
  have 1: "op_mul_int a b = op_shl a (int k)"
    unfolding op_mul_int_def using n t l by simp
  have 2: "op_mul_int a (- b) = op_shl a (int k)"
    unfolding op_mul_int_def [of a "- b"] using n t l by simp
  from 1 2 show ?thesis by simp
qed

theorem mul_negative_power_of_two_witness:
  "(- 4 :: int) < 0 \<and> - (- 4 :: int) = 2 ^ 2 \<and> - (2 ^ 31) < (- 4 :: int) \<and>
   op_mul_int var_4 (- 4) = op_shl var_4 2 \<and>
   op_mul_int var_4 (- 4) = op_mul_int var_4 4 \<and>
   op_mul_int var_4 (- 4) =
     Inr \<lparr>intg = 9, frac = 0, type = d_FXP, opmode = FIXEDFRAC, sat = False, rounding = False,
          raw_val = Fin 158, pinf = Fin 511, ninf = Fin (- 512), shift = Fin 1,
          full = 1024, half = 512\<rparr>"
proof -
  have h: "(- 4 :: int) < 0" "- (- 4 :: int) = 2 ^ 2" "- (2 ^ 31) < (- 4 :: int)" by simp_all
  note ab = mul_negative_power_of_two [OF h, of var_4]
  have a: "op_mul_int var_4 (- 4) = op_shl var_4 2"
    using conjunct1 [OF ab] by simp
  have b: "op_mul_int var_4 (- 4) = op_mul_int var_4 4"
    using conjunct2 [OF ab] by simp
  note c = trans [OF a shl_var_4_by_2]
  show ?thesis by (intro conjI h a b c)
qed

text \<open>
  The claim C4 as stated, for the literal 4: the product is the shift by 2, of widths 9 and
  0, not the product with the promoted literal, of widths 10 and 1.
\<close>

theorem mul_by_4_is_a_shift:
  "op_mul_int var_4 4 =
     Inr \<lparr>intg = 9, frac = 0, type = d_FXP, opmode = FIXEDFRAC, sat = False, rounding = False,
          raw_val = Fin 158, pinf = Fin 511, ninf = Fin (- 512), shift = Fin 1,
          full = 1024, half = 512\<rparr> \<and>
   ebind (FXP_new (Fin (of_int 4)) (promote var_4 4)) (mul var_4) =
     Inr \<lparr>intg = 10, frac = 1, type = d_FXP, opmode = FIXEDFRAC, sat = False, rounding = False,
          raw_val = Fin 316, pinf = Fin (2047 / 2), ninf = Fin (- 1024), shift = Fin 2,
          full = 4096, half = 2048\<rparr> \<and>
   op_mul_int var_4 4 \<noteq> ebind (FXP_new (Fin (of_int 4)) (promote var_4 4)) (mul var_4)"
  by (simp add: mul_var_4_by_4 shl_var_4_by_2 promote_var_4_4 lit_4_new mul_var_4_lit_4)

text \<open>
  Left out of the amended claim: the branch of \<open>operator*\<close> for a negative literal that is not a power of two builds a
  \<open>d_FLOAT\<close> whatever the kind of the other operand, so \<open>_mul\<close> stops on its assertion.
\<close>

lemma mul_var_4_by_minus_3: "op_mul_int var_4 (- 3) = Inl AssertFloatMix"
  by (simp add: op_mul_int_def lit_width_numerals ctor_eval op_eval var_4_def)

text \<open>
  C4, amended. For every scalar add or subtract with a literal other than 0, and every
  scalar multiply with a positive literal that is not a power of two, the literal is
  promoted to an object of integer width \<open>1 + floor (log2 |literal|)\<close> and fractional width
  0, of kind \<open>d_FLOAT\<close> when the other operand is \<open>d_FLOAT\<close>, else \<open>d_UINT\<close> for a positive
  and \<open>d_INT\<close> for a negative literal, and the operation goes through the operator on two
  objects. A multiply with a positive power of two \<open>2 ^ k\<close> is the left shift by \<open>k\<close>.
\<close>

theorem literal_promotion:
  assumes "b \<noteq> 0" "- (2 ^ 31) < b"
  shows "op_add_int a b = ebind (FXP_new (Fin (of_int b)) (promote a b)) (add a) \<and>
         op_sub_int a b = ebind (FXP_new (Fin (of_int b)) (promote a b)) (sub a) \<and>
         (0 < b \<and> (\<forall>k. b \<noteq> 2 ^ k) \<longrightarrow>
            op_mul_int a b = ebind (FXP_new (Fin (of_int b)) (promote a b)) (mul a)) \<and>
         (\<forall>k. b = 2 ^ k \<longrightarrow> op_mul_int a b = op_shl a (int k)) \<and>
         intg (promote a b) = 1 + \<lfloor>log 2 (real_of_int \<bar>b\<bar>)\<rfloor> \<and> frac (promote a b) = 0 \<and>
         type (promote a b) =
           (if type a = d_FLOAT then d_FLOAT else if 0 < b then d_UINT else d_INT)"
proof -
  have n: "b \<noteq> - (2 ^ 31)" using assms(2) by simp
  have p: "promote a b =
      (if 0 < b then mk_tuple (lit_width b) 0 (if type a = d_FLOAT then d_FLOAT else d_UINT)
                       (opmode a) (sat a) (rounding a)
       else mk_tuple (lit_width (- b)) 0 (if type a = d_FLOAT then d_FLOAT else d_INT)
                       (opmode a) (sat a) (rounding a))"
    using assms(1) by (auto simp: promote_def promoted_kind_def)
  have 1: "op_add_int a b = ebind (FXP_new (Fin (of_int b)) (promote a b)) (add a)"
    using assms(1) n by (simp add: op_add_int_def p)
  have 2: "op_sub_int a b = ebind (FXP_new (Fin (of_int b)) (promote a b)) (sub a)"
    using assms(1) n by (simp add: op_sub_int_def p)
  have 3: "op_mul_int a b = ebind (FXP_new (Fin (of_int b)) (promote a b)) (mul a)"
    if "0 < b" "\<forall>k. b \<noteq> 2 ^ k"
  proof -
    have "b AND (b - 1) \<noteq> 0" using that pow2_test [of b] by blast
    then show ?thesis using that(1) by (simp add: op_mul_int_def p)
  qed
  have 4: "op_mul_int a b = op_shl a (int k)" if "b = 2 ^ k" for k
  proof -
    have "b AND (b - 1) = 0" unfolding that by (rule and_pow2_minus1)
    moreover have "floor_log2 (nat b) = k" unfolding that nat_pow2 by (rule floor_log2_pow2)
    moreover have "0 < b" unfolding that by simp
    ultimately show ?thesis by (simp add: op_mul_int_def)
  qed
  have 5: "intg (promote a b) = 1 + \<lfloor>log 2 (real_of_int \<bar>b\<bar>)\<rfloor>"
  proof -
    have "0 < \<bar>b\<bar>" using assms(1) by simp
    then have "lit_width \<bar>b\<bar> = 1 + \<lfloor>log 2 (real_of_int \<bar>b\<bar>)\<rfloor>" by (rule lit_width_log)
    then show ?thesis by (simp add: promote_def mk_tuple_def)
  qed
  have 6: "frac (promote a b) = 0" by (simp add: promote_def mk_tuple_def)
  have 7: "type (promote a b) = (if type a = d_FLOAT then d_FLOAT else if 0 < b then d_UINT else d_INT)"
    using assms(1) by (simp add: promote_def promoted_kind_def mk_tuple_def)
  from 3 have m3: "0 < b \<and> (\<forall>k. b \<noteq> 2 ^ k) \<longrightarrow>
            op_mul_int a b = ebind (FXP_new (Fin (of_int b)) (promote a b)) (mul a)" by blast
  from 4 have m4: "\<forall>k. b = 2 ^ k \<longrightarrow> op_mul_int a b = op_shl a (int k)" by blast
  show ?thesis by (intro conjI 1 2 m3 m4 5 6 7)
qed

theorem literal_promotion_witness:
  "(5::int) \<noteq> 0 \<and> - (2 ^ 31) < (5::int) \<and> promote var_3 5 = mk_tuple 3 0 d_UINT FIXEDFRAC False False \<and>
   op_add_int var_3 5 = ebind (FXP_new (Fin 5) (promote var_3 5)) (add var_3) \<and>
   op_sub_int var_3 5 = ebind (FXP_new (Fin 5) (promote var_3 5)) (sub var_3) \<and>
   op_mul_int var_3 5 = ebind (FXP_new (Fin 5) (promote var_3 5)) (mul var_3) \<and>
   op_mul_int var_3 5 =
     Inr \<lparr>intg = 12, frac = 5, type = d_FXP, opmode = FIXEDFRAC, sat = False, rounding = False,
          raw_val = Fin (- 1780), pinf = Fin (131071 / 32), ninf = Fin (- 4096), shift = Fin 32,
          full = 262144, half = 131072\<rparr>"
proof -
  have h: "(5::int) \<noteq> 0" "- (2 ^ 31) < (5::int)" by simp_all
  have "(5::int) AND (5 - 1) \<noteq> 0" by simp
  then have np: "\<forall>k. (5::int) \<noteq> 2 ^ k" using pow2_test [of 5] by auto
  note t = literal_promotion [OF h, of var_3]
  have a: "op_add_int var_3 5 = ebind (FXP_new (Fin 5) (promote var_3 5)) (add var_3)"
    using conjunct1 [OF t] by simp
  have s: "op_sub_int var_3 5 = ebind (FXP_new (Fin 5) (promote var_3 5)) (sub var_3)"
    using conjunct1 [OF conjunct2 [OF t]] by simp
  have m: "op_mul_int var_3 5 = ebind (FXP_new (Fin 5) (promote var_3 5)) (mul var_3)"
    using conjunct1 [OF conjunct2 [OF conjunct2 [OF t]]] np by simp
  have v: "op_mul_int var_3 5 =
     Inr \<lparr>intg = 12, frac = 5, type = d_FXP, opmode = FIXEDFRAC, sat = False, rounding = False,
          raw_val = Fin (- 1780), pinf = Fin (131071 / 32), ninf = Fin (- 4096), shift = Fin 32,
          full = 262144, half = 131072\<rparr>"
    unfolding m promote_var_3_5 lit_5_new by (simp add: mul_var_3_lit_5)
  show ?thesis by (intro conjI h promote_var_3_5 a s m v)
qed

section \<open>Overflow: saturation clamps, wraparound may stop on an assertion\<close>

lemma chk64_pow2m1:
  assumes "k \<le> 62"
  shows "chk64 (2 ^ k - 1) = Inr (2 ^ k - 1)"
proof -
  have "(0::int) < 2 ^ k" by simp
  then have "in_int64 (2 ^ k - 1)"
    unfolding in_int64_def using pow2_62_int64 [OF assms] by linarith
  then show ?thesis by (simp add: chk64_def)
qed

lemma set_bounds_valid:
  assumes "valid_cfg c"
  shows "\<exists>t. set_bounds (read_template FXP_default c) = Inr t"
proof -
  define this where "this = read_template FXP_default c"
  have f: "0 \<le> frac this" "frac this \<le> 62" and i: "0 \<le> intg this" "intg this \<le> 62"
    and k: "0 \<le> intg this + frac this" "intg this + frac this \<le> 62"
       "0 \<le> intg this + frac this + 1" "intg this + frac this + 1 \<le> 62"
    and ty: "type this \<noteq> d_FLOAT"
    using assms by (simp_all add: valid_cfg_def this_def)
  have n: "nat (intg this + frac this) \<le> 62" "nat (intg this) \<le> 62" using k i by simp_all
  have fh: "\<exists>fu h. full_half (intg this) (frac this) (type this) = Inr (fu, h)"
    by (simp add: full_half_def shl64_1_ok k)
  have lim: "\<exists>p n. limits (intg this) (frac this) (type this) s = Inr (p, n)" for s
    using ty by (simp add: limits_def shl64_1_ok k i chk64_pow2m1 n)
  from fh obtain fu h where fh': "full_half (intg this) (frac this) (type this) = Inr (fu, h)"
    by blast
  from lim obtain p n where
    lim': "limits (intg this) (frac this) (type this) (Fin (2 ^ nat (frac this))) = Inr (p, n)"
    by blast
  show ?thesis
    unfolding this_def [symmetric] set_bounds_def
    by (simp add: shl64_1_ok f fh' lim')
qed


lemma c_assert_simps [simp]: "c_assert True e = Inr ()" "c_assert False e = Inl e"
  by (simp_all add: c_assert_def)

lemma trunc_between:
  assumes "of_int L \<le> x" "x \<le> of_int U"
  shows "L \<le> trunc x \<and> trunc x \<le> U"
  using assms unfolding trunc_def by (auto; linarith)

lemma fits_int64:
  assumes "\<bar>x\<bar> \<le> 2 ^ 62" "K \<le> 53"
  shows "in_int64 (trunc x) \<and> in_int64 (rnd r x) \<and> in_int64 (rnd r x + 2 ^ K)"
proof -
  have b: "real_of_int (- (2 ^ 62)) \<le> x" "x \<le> real_of_int (2 ^ 62)" using assms(1) by simp_all
  have t: "- (2 ^ 62) \<le> trunc x \<and> trunc x \<le> 2 ^ 62" using b by (rule trunc_between)
  have m: "- (2 ^ 62) \<le> rnd r x \<and> rnd r x \<le> 2 ^ 62" using b by (rule rnd_between)
  define p where "p = (2::int) ^ K"
  have k: "p \<le> 2 ^ 53" "0 < p" unfolding p_def using pow2_mono [OF assms(2)] by simp_all
  show ?thesis unfolding in_int64_def p_def [symmetric] using t m k by simp
qed

lemma valid_cfg_fields:
  assumes "valid_cfg c" "set_bounds (read_template FXP_default c) = Inr t"
  shows "intg t = intg c \<and> frac t = frac c \<and> type t = type c \<and> sat t = sat c \<and>
         rounding t = rounding c \<and> type t \<noteq> d_FLOAT \<and> intg t + frac t < 63 \<and>
         (is_intkind (type t) \<longrightarrow> frac t = 0) \<and> nat (intg t + frac t) \<le> 53"
proof -
  have "nat (intg c + frac c) \<le> 53" using assms(1) unfolding valid_cfg_def by arith
  then show ?thesis
    using assms(1) set_bounds_config [OF assms(2)] by (simp add: valid_cfg_def)
qed

text \<open>Wraparound on a valid configuration, for a scaled input that fits 63 bits.\<close>

lemma store_wrap:
  assumes "fields_ok t" "type t \<noteq> d_FLOAT" "is_intkind (type t) \<longrightarrow> frac t = 0"
    "nat (intg t + frac t) \<le> 53" "\<bar>v * 2 ^ nat (frac t)\<bar> \<le> 2 ^ 62"
  shows "store t (Fin v) =
           (if is_unsigned (type t) \<and> v < 0 then Inl AssertNonNeg
            else Inr (t\<lparr>raw_val :=
                   Fin (of_int (wrap_count t (rnd (rounding t) (v * 2 ^ nat (frac t)))))\<rparr>))"
proof -
  define K where "K = nat (intg t + frac t)"
  define m where "m = rnd (rounding t) (v * 2 ^ nat (frac t))"
  have K53: "K \<le> 53" using assms(4) by (simp add: K_def)
  note fit = fits_int64 [OF assms(5) K53, of "rounding t", folded m_def]
  have sh: "shift t = Fin (2 ^ nat (frac t))" using assms(1) by (simp add: fields_ok_def)
  show ?thesis
  proof (cases "is_unsigned (type t)")
    case True
    have fu: "full t = 2 ^ K" using assms(1) True by (simp add: fields_ok_def K_def)
    have K62: "K \<le> 62" using K53 by simp
    have tu: "to_unsigned t (Fin v) = Inr (t\<lparr>raw_val := Fin (of_int (m mod 2 ^ K))\<rparr>)"
      unfolding to_unsigned_Fin [OF sh fu K62] m_def [symmetric] Let_def using fit by simp
    have wc: "wrap_count t m = m mod 2 ^ K" using True by (simp add: wrap_count_def rep_count_def K_def)
    have fz: "c_assert (frac t = 0) AssertFracZero = Inr ()" if "type t = d_UINT"
      using assms(3) that by (simp add: is_intkind_def c_assert_def)
    have nn: "c_assert (dle (Fin 0) (Fin v)) AssertNonNeg = (if v < 0 then Inl AssertNonNeg else Inr ())"
      by (simp add: c_assert_def not_le)
    show ?thesis
      unfolding m_def [symmetric] wc using True tu
      by (cases "type t") (simp_all add: store_def is_unsigned_def fz nn)
  next
    case False
    have K61: "K \<le> 61" using K53 by simp
    have nf: "intg t + frac t \<noteq> 62" using assms(4) by linarith
    have fu: "full t = 2 ^ Suc K" and ha: "half t = 2 ^ K"
      using assms(1) False nf by (simp_all add: fields_ok_def K_def)
    have ts: "to_signed t (Fin v) = Inr (t\<lparr>raw_val := Fin (of_int ((m + 2 ^ K) mod 2 ^ Suc K - 2 ^ K))\<rparr>)"
      unfolding to_signed_Fin [OF sh ha fu K61] m_def [symmetric] Let_def using fit
      by (simp del: power_Suc)
    have wc: "wrap_count t m = (m + 2 ^ K) mod 2 ^ Suc K - 2 ^ K"
      using False by (simp add: wrap_count_def rep_count_def K_def)
    have fz: "c_assert (frac t = 0) AssertFracZero = Inr ()" if "type t = d_INT"
      using assms(3) that by (simp add: is_intkind_def c_assert_def)
    show ?thesis
      unfolding m_def [symmetric] wc using False assms(2) ts
      by (cases "type t") (simp_all add: store_def is_unsigned_def fz del: power_Suc)
  qed
qed

lemma sat_8_abort:
  "FXP_new (Fin 8) (mk_tuple 3 0 d_INT FIXEDFRAC False False) = Inl AssertSignChange"
  by (simp add: ctor_eval)

text \<open>
  The claim C3 as stated fails under wraparound: 8 into a signed 3-bit integer wraps to -8,
  the opposite sign, and -1 into an unsigned kind is negative; each stops on an assertion.
\<close>

theorem overflow_can_abort:
  "set_bounds (read_template FXP_default (mk_tuple 3 0 d_INT FIXEDFRAC False False)) =
     Inr \<lparr>intg = 3, frac = 0, type = d_INT, opmode = FIXEDFRAC, sat = False, rounding = False,
          raw_val = Fin 0, pinf = Fin 7, ninf = Fin (- 8), shift = Fin 1, full = 16, half = 8\<rparr> \<and>
   dless (Fin 7) (Fin 8) \<and>
   FXP_new (Fin 8) (mk_tuple 3 0 d_INT FIXEDFRAC False False) = Inl AssertSignChange \<and>
   set_bounds (read_template FXP_default (mk_tuple 3 0 d_UINT FIXEDFRAC False False)) =
     Inr \<lparr>intg = 3, frac = 0, type = d_UINT, opmode = FIXEDFRAC, sat = False, rounding = False,
          raw_val = Fin 0, pinf = Fin 7, ninf = Fin 0, shift = Fin 1, full = 8, half = 0\<rparr> \<and>
   dless (Fin (- 1)) (Fin 0) \<and>
   FXP_new (Fin (- 1)) (mk_tuple 3 0 d_UINT FIXEDFRAC False False) = Inl AssertNonNeg"
  by (simp add: ctor_eval)

text \<open>
  C3, amended. For every valid configuration (see \<open>valid_cfg\<close>) and every real input
  outside its bounds: with saturation the construction returns and the value read back is
  the bound on the side of the input; with wraparound, while the scaled input fits 63 bits,
  the construction reduces the count modulo the representable count and returns, unless
  the input is negative for an unsigned kind or the wrapped count has the opposite sign of
  the input, where the assertions of \<open>_set_val\<close> stop it (\<open>wrap_outcome\<close>).
\<close>

theorem overflow_resolution:
  assumes "valid_cfg c"
  shows "\<exists>t. set_bounds (read_template FXP_default c) = Inr t \<and>
     (sat c \<and> dless (pinf t) (Fin v) \<longrightarrow> (\<exists>x. FXP_new (Fin v) c = Inr x \<and> val x = pinf t)) \<and>
     (sat c \<and> dless (Fin v) (ninf t) \<longrightarrow> (\<exists>x. FXP_new (Fin v) c = Inr x \<and> val x = ninf t)) \<and>
     (\<not> sat c \<and> \<bar>v * 2 ^ nat (frac c)\<bar> \<le> 2 ^ 62 \<longrightarrow> FXP_new (Fin v) c = wrap_outcome t v)"
proof -
  from set_bounds_valid [OF assms] obtain t where
    sb: "set_bounds (read_template FXP_default c) = Inr t" by blast
  from valid_cfg_fields [OF assms sb] have
    cfg: "intg t = intg c" "frac t = frac c" "type t = type c" "sat t = sat c"
      "rounding t = rounding c" and
    ty: "type t \<noteq> d_FLOAT" and wd: "intg t + frac t < 63" and
    ik: "is_intkind (type t) \<longrightarrow> frac t = 0" and K53: "nat (intg t + frac t) \<le> 53"
    by blast+
  have wdc: "intg c + frac c < 63" using wd cfg by simp
  have ty': "type (read_template FXP_default c) \<noteq> d_FLOAT" using ty cfg by simp
  have wd': "intg (read_template FXP_default c) + frac (read_template FXP_default c) < 63"
    using wdc by simp
  from set_bounds_obj [OF sb ty' wd'] K53 obtain L U where fo: "fields_ok t" and
    p: "pinf t = Fin (of_int U / 2 ^ nat (frac t))" "ninf t = Fin (of_int L / 2 ^ nat (frac t))" and
    g: "in_grid t L" "in_grid t U" and LU: "L \<le> 0" "0 \<le> U"
    by blast
  have sh: "shift t = Fin (2 ^ nat (frac t))" using fo by (simp add: fields_ok_def)
  have le: "real_of_int L / 2 ^ nat (frac t) \<le> real_of_int U / 2 ^ nat (frac t)"
    using LU by (intro div_pow2_mono) simp
  have hi: "\<exists>x. FXP_new (Fin v) c = Inr x \<and> val x = pinf t"
    if s: "sat c" and o: "dless (pinf t) (Fin v)"
  proof -
    have gt: "real_of_int U / 2 ^ nat (frac t) < v" using o by (simp add: p)
    have sa: "saturate t (map_inf t (Fin v)) = Fin (of_int U / 2 ^ nat (frac t))"
      using s cfg(4) gt by (simp add: saturate_Fin [OF p le])
    have st: "store t (saturate t (map_inf t (Fin v))) = Inr (t\<lparr>raw_val := Fin (of_int U)\<rparr>)"
      unfolding sa by (rule store_grid [OF fo ty g(2) ik])
    have "0 \<le> real_of_int U / 2 ^ nat (frac t)" using LU by simp
    with gt have "0 \<le> v" by linarith
    then have "0 \<le> v * of_int U" using LU by simp
    then have sg: "dle (Fin 0) (dmul (Fin v) (raw_val (t\<lparr>raw_val := Fin (of_int U)\<rparr>)))" by simp
    have n: "FXP_new (Fin v) c = Inr (t\<lparr>raw_val := Fin (of_int U)\<rparr>)"
      using sb wdc st sg by (rule FXP_new_eval)
    have "val (t\<lparr>raw_val := Fin (of_int U)\<rparr>) = pinf t" using ty by (simp add: val_def sh p)
    with n show ?thesis by blast
  qed
  have lo: "\<exists>x. FXP_new (Fin v) c = Inr x \<and> val x = ninf t"
    if s: "sat c" and o: "dless (Fin v) (ninf t)"
  proof -
    have lt: "v < real_of_int L / 2 ^ nat (frac t)" using o by (simp add: p)
    have sa: "saturate t (map_inf t (Fin v)) = Fin (of_int L / 2 ^ nat (frac t))"
      using s cfg(4) lt le by (simp add: saturate_Fin [OF p le])
    have st: "store t (saturate t (map_inf t (Fin v))) = Inr (t\<lparr>raw_val := Fin (of_int L)\<rparr>)"
      unfolding sa by (rule store_grid [OF fo ty g(1) ik])
    have "real_of_int L / 2 ^ nat (frac t) \<le> 0" using LU by (simp add: divide_le_0_iff)
    with lt have "v \<le> 0" by linarith
    then have "0 \<le> v * of_int L" using LU by (simp add: mult_nonpos_nonpos)
    then have sg: "dle (Fin 0) (dmul (Fin v) (raw_val (t\<lparr>raw_val := Fin (of_int L)\<rparr>)))" by simp
    have n: "FXP_new (Fin v) c = Inr (t\<lparr>raw_val := Fin (of_int L)\<rparr>)"
      using sb wdc st sg by (rule FXP_new_eval)
    have "val (t\<lparr>raw_val := Fin (of_int L)\<rparr>) = ninf t" using ty by (simp add: val_def sh p)
    with n show ?thesis by blast
  qed
  have wr: "FXP_new (Fin v) c = wrap_outcome t v"
    if s: "\<not> sat c" and f: "\<bar>v * 2 ^ nat (frac c)\<bar> \<le> 2 ^ 62"
  proof -
    have f': "\<bar>v * 2 ^ nat (frac t)\<bar> \<le> 2 ^ 62" using f cfg by simp
    note sw = store_wrap [OF fo ty ik K53 f']
    have so: "saturate t (map_inf t (Fin v)) = Fin v" using s cfg(4) by (simp add: saturate_off)
    have "FXP_new (Fin v) c = set_val t (Fin v)" by (simp add: FXP_new_def sb)
    also have "\<dots> = wrap_outcome t v"
      unfolding set_val_def Let_def so sw wrap_outcome_def using wd
      by (simp add: not_le)
    finally show ?thesis .
  qed
  from hi have hi': "sat c \<and> dless (pinf t) (Fin v) \<longrightarrow>
      (\<exists>x. FXP_new (Fin v) c = Inr x \<and> val x = pinf t)" by blast
  from lo have lo': "sat c \<and> dless (Fin v) (ninf t) \<longrightarrow>
      (\<exists>x. FXP_new (Fin v) c = Inr x \<and> val x = ninf t)" by blast
  from wr have wr': "\<not> sat c \<and> \<bar>v * 2 ^ nat (frac c)\<bar> \<le> 2 ^ 62 \<longrightarrow>
      FXP_new (Fin v) c = wrap_outcome t v" by blast
  show ?thesis by (intro exI [of _ t] conjI sb hi' lo' wr')
qed

theorem overflow_resolution_witness:
  "valid_cfg (mk_tuple 3 0 d_INT FIXEDFRAC True False) \<and>
   sat (mk_tuple 3 0 d_INT FIXEDFRAC True False) \<and>
   (\<exists>t. set_bounds (read_template FXP_default (mk_tuple 3 0 d_INT FIXEDFRAC True False)) = Inr t \<and>
        dless (pinf t) (Fin 100) \<and>
        (\<exists>x. FXP_new (Fin 100) (mk_tuple 3 0 d_INT FIXEDFRAC True False) = Inr x \<and>
             val x = pinf t \<and> val x = Fin 7))"
proof -
  have v: "valid_cfg (mk_tuple 3 0 d_INT FIXEDFRAC True False)"
    and s: "sat (mk_tuple 3 0 d_INT FIXEDFRAC True False)"
    by (simp_all add: valid_cfg_def mk_tuple_def is_intkind_def)
  from overflow_resolution [OF v, of 100] obtain t where
    sb: "set_bounds (read_template FXP_default (mk_tuple 3 0 d_INT FIXEDFRAC True False)) = Inr t" and
    hi: "sat (mk_tuple 3 0 d_INT FIXEDFRAC True False) \<and> dless (pinf t) (Fin 100) \<longrightarrow>
         (\<exists>x. FXP_new (Fin 100) (mk_tuple 3 0 d_INT FIXEDFRAC True False) = Inr x \<and> val x = pinf t)"
    by blast
  have "set_bounds (read_template FXP_default (mk_tuple 3 0 d_INT FIXEDFRAC True False)) =
     Inr \<lparr>intg = 3, frac = 0, type = d_INT, opmode = FIXEDFRAC, sat = True, rounding = False,
          raw_val = Fin 0, pinf = Fin 7, ninf = Fin (- 8), shift = Fin 1, full = 16, half = 8\<rparr>"
    by (simp add: ctor_eval)
  with sb have p: "pinf t = Fin 7" by auto
  then have d: "dless (pinf t) (Fin 100)" by simp
  from hi s d obtain x where
    "FXP_new (Fin 100) (mk_tuple 3 0 d_INT FIXEDFRAC True False) = Inr x" "val x = pinf t"
    by blast
  with v s sb d p show ?thesis by auto
qed

section \<open>Wraparound: the stored count\<close>

lemma FXP_new_wrap:
  assumes "valid_cfg c" "set_bounds (read_template FXP_default c) = Inr t" "\<not> sat c"
    "\<bar>v * 2 ^ nat (frac c)\<bar> \<le> 2 ^ 62"
  shows "FXP_new (Fin v) c = wrap_outcome t v"
proof -
  from valid_cfg_fields [OF assms(1,2)] have
    cfg: "intg t = intg c" "frac t = frac c" "type t = type c" "sat t = sat c"
      "rounding t = rounding c" and
    ty: "type t \<noteq> d_FLOAT" and wd: "intg t + frac t < 63" and
    ik: "is_intkind (type t) \<longrightarrow> frac t = 0" and K53: "nat (intg t + frac t) \<le> 53"
    by blast+
  have ty': "type (read_template FXP_default c) \<noteq> d_FLOAT" using ty cfg by simp
  have wd': "intg (read_template FXP_default c) + frac (read_template FXP_default c) < 63"
    using wd cfg by simp
  from set_bounds_obj [OF assms(2) ty' wd'] have fo: "fields_ok t" by blast
  have f': "\<bar>v * 2 ^ nat (frac t)\<bar> \<le> 2 ^ 62" using assms(4) cfg by simp
  note sw = store_wrap [OF fo ty ik K53 f']
  have so: "saturate t (map_inf t (Fin v)) = Fin v" using assms(3) cfg(4) by (simp add: saturate_off)
  have "FXP_new (Fin v) c = set_val t (Fin v)" by (simp add: FXP_new_def assms(2))
  also have "\<dots> = wrap_outcome t v"
    unfolding set_val_def Let_def so sw wrap_outcome_def using wd
    by (simp add: not_le)
  finally show ?thesis .
qed

text \<open>
  C7. The claim: for every real \<open>v\<close> the stored count is congruent to the rounded or
  floored \<open>v * 2 ^ frac\<close> and in range, wraparound being always well defined. The count is
  reduced as an \<open>int64_t\<close>: for \<open>2 ^ 64\<close> the conversion \<open>(int64_t) temp\<close> is undefined and no
  count is produced. Where the conversion is defined, the assertions of \<open>_set_val\<close> stop the
  constructor after the reduction when the count has changed sign (12 into a signed 3-bit
  integer wraps to -4), and before it when the input of an unsigned kind is negative.
\<close>

theorem wraparound_not_total:
  "\<not> sat (mk_tuple 3 0 d_INT FIXEDFRAC False False) \<and>
   FXP_new (Fin 18446744073709551616) (mk_tuple 3 0 d_INT FIXEDFRAC False False) = Inl Undefined \<and>
   wrap_count (mk_tuple 3 0 d_INT FIXEDFRAC False False) 12 = - 4 \<and>
   FXP_new (Fin 12) (mk_tuple 3 0 d_INT FIXEDFRAC False False) = Inl AssertSignChange \<and>
   FXP_new (Fin (- 3)) (mk_tuple 3 0 d_UINT FIXEDFRAC False False) = Inl AssertNonNeg"
  by (simp add: ctor_eval wrap_count_def rep_count_def is_unsigned_def)

text \<open>
  C7, amended. For every valid configuration (see \<open>valid_cfg\<close>: not \<open>d_FLOAT\<close>, at most 53
  bits) with saturation disabled and every real \<open>v\<close> whose scaled value fits 63 bits: the
  count \<open>n\<close>, the rounded or floored \<open>v * 2 ^ frac\<close> reduced into the range of the
  configuration, is congruent to it modulo the representable count, and the constructor
  returns the object that stores \<open>n\<close>, unless \<open>v\<close> is negative for an unsigned kind or \<open>n\<close>
  has the opposite sign of \<open>v\<close>, where an assertion of \<open>_set_val\<close> stops it.
\<close>

theorem wraparound_congruent:
  assumes "valid_cfg c" "\<not> sat c" "\<bar>v * 2 ^ nat (frac c)\<bar> \<le> 2 ^ 62"
  shows "\<exists>t n. set_bounds (read_template FXP_default c) = Inr t \<and>
     n = wrap_count c (rnd (rounding c) (v * 2 ^ nat (frac c))) \<and>
     n mod rep_count c = rnd (rounding c) (v * 2 ^ nat (frac c)) mod rep_count c \<and>
     in_grid c n \<and>
     FXP_new (Fin v) c =
       (if is_unsigned (type c) \<and> v < 0 then Inl AssertNonNeg
        else if v * of_int n < 0 then Inl AssertSignChange
        else Inr (t\<lparr>raw_val := Fin (of_int n)\<rparr>))"
proof -
  from set_bounds_valid [OF assms(1)] obtain t where
    sb: "set_bounds (read_template FXP_default c) = Inr t" by blast
  have cfg: "intg t = intg c" "frac t = frac c" "type t = type c" "rounding t = rounding c"
    using set_bounds_config [OF sb] by simp_all
  define n where "n = wrap_count c (rnd (rounding c) (v * 2 ^ nat (frac c)))"
  have wc: "wrap_count t (rnd (rounding t) (v * 2 ^ nat (frac t))) = n"
    unfolding n_def cfg(2,4) by (rule grid_config(3) [OF cfg(1,2,3)])
  have cg: "n mod rep_count c = rnd (rounding c) (v * 2 ^ nat (frac c)) mod rep_count c"
    unfolding n_def by (rule wrap_count_cong)
  have gr: "in_grid c n" unfolding n_def by (rule wrap_count_in_grid)
  have "FXP_new (Fin v) c = wrap_outcome t v"
    using assms(1) sb assms(2,3) by (rule FXP_new_wrap)
  then have out: "FXP_new (Fin v) c =
       (if is_unsigned (type c) \<and> v < 0 then Inl AssertNonNeg
        else if v * of_int n < 0 then Inl AssertSignChange
        else Inr (t\<lparr>raw_val := Fin (of_int n)\<rparr>))"
    unfolding wrap_outcome_def wc Let_def cfg(3) .
  show ?thesis using sb n_def cg gr out by (intro exI conjI)
qed

theorem wraparound_congruent_witness:
  "valid_cfg (mk_tuple 3 0 d_INT FIXEDFRAC False False) \<and>
   \<not> sat (mk_tuple 3 0 d_INT FIXEDFRAC False False) \<and>
   \<bar>20 * 2 ^ nat (frac (mk_tuple 3 0 d_INT FIXEDFRAC False False))\<bar> \<le> (2 ^ 62 :: real) \<and>
   (\<exists>t n. set_bounds (read_template FXP_default (mk_tuple 3 0 d_INT FIXEDFRAC False False)) = Inr t \<and>
      n = 4 \<and> n mod 16 = 20 mod 16 \<and> - 8 \<le> n \<and> n < 8 \<and>
      FXP_new (Fin 20) (mk_tuple 3 0 d_INT FIXEDFRAC False False) = Inr (t\<lparr>raw_val := Fin (of_int n)\<rparr>)) \<and>
   valid_cfg (mk_tuple 3 0 d_UINT FIXEDFRAC False False) \<and>
   \<not> sat (mk_tuple 3 0 d_UINT FIXEDFRAC False False) \<and>
   (\<exists>t n. set_bounds (read_template FXP_default (mk_tuple 3 0 d_UINT FIXEDFRAC False False)) = Inr t \<and>
      n = 4 \<and> n mod 8 = 20 mod 8 \<and> 0 \<le> n \<and> n < 8 \<and>
      FXP_new (Fin 20) (mk_tuple 3 0 d_UINT FIXEDFRAC False False) = Inr (t\<lparr>raw_val := Fin (of_int n)\<rparr>))"
proof -
  have v: "valid_cfg (mk_tuple 3 0 d_INT FIXEDFRAC False False)"
    and s: "\<not> sat (mk_tuple 3 0 d_INT FIXEDFRAC False False)"
    and b: "\<bar>20 * 2 ^ nat (frac (mk_tuple 3 0 d_INT FIXEDFRAC False False))\<bar> \<le> (2 ^ 62 :: real)"
    and vu: "valid_cfg (mk_tuple 3 0 d_UINT FIXEDFRAC False False)"
    and su: "\<not> sat (mk_tuple 3 0 d_UINT FIXEDFRAC False False)"
    and bu: "\<bar>20 * 2 ^ nat (frac (mk_tuple 3 0 d_UINT FIXEDFRAC False False))\<bar> \<le> (2 ^ 62 :: real)"
    by (simp_all add: valid_cfg_def mk_tuple_def is_intkind_def)
  have n: "wrap_count (mk_tuple 3 0 d_INT FIXEDFRAC False False)
     (rnd (rounding (mk_tuple 3 0 d_INT FIXEDFRAC False False))
        (20 * 2 ^ nat (frac (mk_tuple 3 0 d_INT FIXEDFRAC False False)))) = 4"
    and nu: "wrap_count (mk_tuple 3 0 d_UINT FIXEDFRAC False False)
     (rnd (rounding (mk_tuple 3 0 d_UINT FIXEDFRAC False False))
        (20 * 2 ^ nat (frac (mk_tuple 3 0 d_UINT FIXEDFRAC False False)))) = 4"
    by (simp_all add: wrap_count_def rep_count_def rnd_def mk_tuple_def is_unsigned_def)
  have r: "rep_count (mk_tuple 3 0 d_INT FIXEDFRAC False False) = 16"
    "rep_count (mk_tuple 3 0 d_UINT FIXEDFRAC False False) = 8"
    "is_unsigned (type (mk_tuple 3 0 d_UINT FIXEDFRAC False False))"
    "\<not> is_unsigned (type (mk_tuple 3 0 d_INT FIXEDFRAC False False))"
    by (simp_all add: rep_count_def mk_tuple_def is_unsigned_def)
  from wraparound_congruent [OF v s b, unfolded n]
  have i: "\<exists>t n. set_bounds (read_template FXP_default (mk_tuple 3 0 d_INT FIXEDFRAC False False)) = Inr t \<and>
      n = 4 \<and> n mod 16 = 20 mod 16 \<and> - 8 \<le> n \<and> n < 8 \<and>
      FXP_new (Fin 20) (mk_tuple 3 0 d_INT FIXEDFRAC False False) = Inr (t\<lparr>raw_val := Fin (of_int n)\<rparr>)"
    by (auto simp: r)
  from wraparound_congruent [OF vu su bu, unfolded nu]
  have u: "\<exists>t n. set_bounds (read_template FXP_default (mk_tuple 3 0 d_UINT FIXEDFRAC False False)) = Inr t \<and>
      n = 4 \<and> n mod 8 = 20 mod 8 \<and> 0 \<le> n \<and> n < 8 \<and>
      FXP_new (Fin 20) (mk_tuple 3 0 d_UINT FIXEDFRAC False False) = Inr (t\<lparr>raw_val := Fin (of_int n)\<rparr>)"
    by (auto simp: r)
  show ?thesis by (intro conjI v s b i vu su u)
qed

section \<open>Commutativity\<close>

text \<open>
  Addition and multiplication treat their operands alike; subtraction computes
  \<open>a - b\<close> and \<open>b - a\<close> as opposite doubles and hands them to the constructor, which
  quantizes by \<open>fastfloor\<close> when rounding is off and saturates between bounds that are
  not symmetric.
\<close>

lemma sub_var_3_var_4: "sub var_3 var_4 = Inr diff_3_4"
  by (simp add: ctor_eval op_eval var_3_def var_4_def diff_3_4_def)

lemma neg_sub_var_4_var_3: "ebind (sub var_4 var_3) op_neg = Inr neg_diff_4_3"
  by (simp add: ctor_eval op_eval var_3_def var_4_def neg_diff_4_3_def)

lemma dadd_commute: "dadd x y = dadd y x"
  by (cases x; cases y) simp_all

lemma dmul_commute: "dmul x y = dmul y x"
  by (cases x; cases y) (simp_all add: mult.commute)

lemma fastmax_commute: "fastmax a b = fastmax b a"
  by (simp add: fastmax_def)

lemma fastmin_commute: "fastmin a b = fastmin b a"
  by (simp add: fastmin_def)

lemma frac_fixed_commute: "frac_fixed a b = frac_fixed b a"
  by (cases "type a"; cases "type b")
     (simp_all add: frac_fixed_def is_intkind_def is_fxpkind_def fastmin_commute)

lemma type_addmul_commute: "type_addmul s t = type_addmul t s"
  by (cases s; cases t) (simp_all add: type_addmul_def)

lemma type_sub_commute: "type_sub s t = type_sub t s"
  by (cases s; cases t) (simp_all add: type_sub_def)

lemma add_sub_width_commute: "add_sub_width a b m = add_sub_width b a m"
  by (cases m) (simp_all add: add_sub_width_def fastmax_commute [of "intg a"]
      fastmax_commute [of "frac a"] frac_fixed_commute [of a])

lemma mul_width_commute: "mul_width a b m = mul_width b a m"
  by (cases m) (simp_all add: mul_width_def fastmax_commute [of "intg a"]
      frac_fixed_commute [of a] add.commute)

lemma check_operands_commute: "check_operands a b = check_operands b a"
  by (auto simp: check_operands_def c_assert_def ebind_def)

lemma check_operands_Inr:
  "check_operands a b = Inr u \<longleftrightarrow>
     opmode a = opmode b \<and> sat a = sat b \<and> rounding a = rounding b \<and>
     (type a = d_FLOAT \<longleftrightarrow> type b = d_FLOAT)"
  by (auto simp: check_operands_def c_assert_def ebind_def)

lemma mul5_commute: "mul5 a b m s r = mul5 b a m s r"
  by (simp add: mul5_def dmul_commute [of "raw_val a"] mul_width_commute [of a]
        type_addmul_commute [of "type a"] add.commute [of "frac a"] conj_commute)

lemma mul_commute: "mul a b = mul b a"
proof (cases "check_operands a b")
  case (Inl e)
  then show ?thesis using check_operands_commute [of a b] by (simp add: mul_def)
next
  case (Inr u)
  then have "opmode a = opmode b" "sat a = sat b" "rounding a = rounding b"
    by (simp_all add: check_operands_Inr)
  then show ?thesis
    using Inr check_operands_commute [of a b] by (simp add: mul_def mul5_commute [of a])
qed

lemma obj_ok_nonfloat:
  assumes "obj_ok a" "type a \<noteq> d_FLOAT"
  shows "fields_ok a \<and>
         (\<exists>n. raw_val a = Fin (of_int n) \<and> in_grid a n \<and> rd (of_int n) = Fin (of_int n))"
proof (cases "raw_val a")
  case (Fin r)
  with assms have f: "fields_ok a" and r: "r = of_int \<lfloor>r\<rfloor>" and g: "in_grid a \<lfloor>r\<rfloor>"
    and d: "rd r = Fin r"
    by (simp_all add: obj_ok_def)
  have "raw_val a = Fin (of_int \<lfloor>r\<rfloor>)" using Fin r by simp
  moreover have "rd (of_int \<lfloor>r\<rfloor>) = Fin (of_int \<lfloor>r\<rfloor>)" using d r by simp
  ultimately show ?thesis using f g by blast
qed (insert assms, simp_all add: obj_ok_def)

lemma obj_ok_not_NaN: "obj_ok a \<Longrightarrow> raw_val a \<noteq> NaN"
  by (auto simp: obj_ok_def)

lemma grid_in_int64:
  assumes "fields_ok a" "in_grid a n"
  shows "in_int64 n"
proof -
  define K where "K = nat (intg a + frac a)"
  have K62: "K \<le> 62" unfolding K_def using assms(1) by (rule fields_ok_K)
  note b = pow2_62_int64 [OF K62]
  show ?thesis
  proof (cases "is_unsigned (type a)")
    case True
    from in_grid_unsigned [OF True assms(2)] b show ?thesis
      unfolding in_int64_def K_def by linarith
  next
    case False
    from in_grid_signed [OF False assms(2)] b show ?thesis
      unfolding in_int64_def K_def by linarith
  qed
qed

lemma wrap64_id: "in_int64 n \<Longrightarrow> wrap 64 n = n"
proof -
  assume "in_int64 n"
  then have "0 \<le> n + 2 ^ 63 \<and> n + 2 ^ 63 < 2 ^ 64" unfolding in_int64_def by simp
  then have "(n + 2 ^ 63) mod 2 ^ 64 = n + 2 ^ 63" by (simp add: mod_pos_pos_trivial)
  then show ?thesis by (simp add: wrap_def)
qed

lemma align_zero:
  "in_int64 n \<Longrightarrow> rd (of_int n) = Fin (of_int n) \<Longrightarrow>
     align (Fin (of_int n)) 0 = Inr (Fin (of_int n))"
  by (simp add: align_def chk64_def shl64_def wrap64_id)

lemma add5_commute:
  assumes "obj_ok a" "obj_ok b" "type a = d_FLOAT \<longleftrightarrow> type b = d_FLOAT"
  shows "add5 a b m s r = add5 b a m s r"
proof (cases "type a = d_FLOAT")
  case True
  with assms(3) have "type b = d_FLOAT" by simp
  with True show ?thesis
    by (simp add: add5_def dadd_commute [of "raw_val a"] add_sub_width_commute [of a])
next
  case False
  with assms(3) have fb: "type b \<noteq> d_FLOAT" by simp
  from obj_ok_nonfloat [OF assms(1) False] obtain na where
    oa: "fields_ok a" "raw_val a = Fin (of_int na)" "in_grid a na"
      "rd (of_int na) = Fin (of_int na)" by blast
  from obj_ok_nonfloat [OF assms(2) fb] obtain nb where
    ob: "fields_ok b" "raw_val b = Fin (of_int nb)" "in_grid b nb"
      "rd (of_int nb) = Fin (of_int nb)" by blast
  have sh: "shift a = Fin (2 ^ nat (frac a))" "shift b = Fin (2 ^ nat (frac b))"
    using oa(1) ob(1) by (simp_all add: fields_ok_def)
  note ty = type_addmul_commute [of "type a" "type b"]
  note wd = add_sub_width_commute [of a b m]
  show ?thesis
  proof (cases "frac a = frac b")
    case True
    have za: "align (raw_val a) 0 = Inr (raw_val a)"
      unfolding oa(2) using grid_in_int64 [OF oa(1,3)] oa(4) by (rule align_zero)
    have zb: "align (raw_val b) 0 = Inr (raw_val b)"
      unfolding ob(2) using grid_in_int64 [OF ob(1,3)] ob(4) by (rule align_zero)
    have "shift a = shift b" using sh True by simp
    then show ?thesis using True False fb
      by (simp add: add5_def za zb ty wd dadd_commute [of "raw_val a"])
  next
    case ne: False
    show ?thesis
    proof (cases "frac a > frac b")
      case True
      then have "\<not> frac b \<ge> frac a" by simp
      with True False fb show ?thesis by (simp add: add5_def ty wd)
    next
      case lt: False
      with ne have "frac b > frac a" "\<not> frac a \<ge> frac b" by simp_all
      with False fb show ?thesis by (simp add: add5_def ty wd)
    qed
  qed
qed

lemma add_commute_obj:
  assumes "obj_ok a" "obj_ok b"
  shows "add a b = add b a"
proof (cases "check_operands a b")
  case (Inl e)
  then show ?thesis using check_operands_commute [of a b] by (simp add: add_def)
next
  case (Inr u)
  then have c: "opmode a = opmode b" "sat a = sat b" "rounding a = rounding b"
    "type a = d_FLOAT \<longleftrightarrow> type b = d_FLOAT"
    by (simp_all add: check_operands_Inr)
  show ?thesis
    using Inr check_operands_commute [of a b] c(1,2,3)
    by (simp add: add_def add5_commute [OF assms c(4)])
qed

lemma fields_ok_raw [simp]: "fields_ok (t\<lparr>raw_val := v\<rparr>) = fields_ok t"
  by (simp add: fields_ok_def)

lemma in_grid_raw [simp]: "in_grid (t\<lparr>raw_val := v\<rparr>) n = in_grid t n"
  by (simp add: in_grid_def rep_count_def)

text \<open>The value read back from an object the constructor returns is not NaN.\<close>

lemma FXP_new_val:
  assumes "FXP_new v c = Inr x"
  shows "val x \<noteq> NaN"
proof (cases "type c = d_FLOAT")
  case True
  from quantize_float [OF assms True] obtain t where
    sb: "set_bounds (read_template FXP_default c) = Inr t" and
    x: "x = t\<lparr>raw_val := v\<rparr>" and nn: "v \<noteq> NaN"
    by blast
  have "type t = d_FLOAT" using set_bounds_config [OF sb] True by simp
  then show ?thesis using nn by (simp add: val_def x)
next
  case False
  from quantize_Inr [OF assms False] obtain t n where
    sb: "set_bounds (read_template FXP_default c) = Inr t" and
    fo: "fields_ok t" and x: "x = t\<lparr>raw_val := Fin (of_int n)\<rparr>"
    by blast
  have "type t \<noteq> d_FLOAT" using set_bounds_config [OF sb] False by simp
  then show ?thesis using fo by (simp add: val_def x fields_ok_def)
qed

lemma op_eq_refl: "val c \<noteq> NaN \<Longrightarrow> op_eq c c"
  by (simp add: op_eq_def deq_def)

lemma res_eq_same:
  assumes "\<And>c. r = Inr c \<Longrightarrow> val c \<noteq> NaN"
  shows "res_eq r r"
  using assms by (cases r) (simp_all add: res_eq_def op_eq_refl)

lemma add5_Inr_new: "add5 a b m s r = Inr c \<Longrightarrow> \<exists>v (cfg :: tuple). FXP_new v cfg = Inr c"
  unfolding add5_def ebind_Inr_iff split_beta by blast

lemma mul5_Inr_new: "mul5 a b m s r = Inr c \<Longrightarrow> \<exists>v (cfg :: tuple). FXP_new v cfg = Inr c"
  unfolding mul5_def ebind_Inr_iff split_beta by blast

lemma sub5_Inr_new: "sub5 a b m s r = Inr c \<Longrightarrow> \<exists>v (cfg :: tuple). FXP_new v cfg = Inr c"
  unfolding sub5_def ebind_Inr_iff split_beta by blast

lemma add_Inr_ok: "add a b = Inr c \<Longrightarrow> val c \<noteq> NaN"
  using add5_Inr_new FXP_new_val by (fastforce simp: add_def ebind_Inr_iff)

lemma mul_Inr_ok: "mul a b = Inr c \<Longrightarrow> val c \<noteq> NaN"
  using mul5_Inr_new FXP_new_val by (fastforce simp: mul_def ebind_Inr_iff)

lemma sub_Inr_ok: "sub a b = Inr c \<Longrightarrow> val c \<noteq> NaN"
  using sub5_Inr_new FXP_new_val by (fastforce simp: sub_def ebind_Inr_iff)

lemma add_res_eq:
  assumes "obj_ok a" "obj_ok b"
  shows "res_eq (add a b) (add b a)"
  unfolding add_commute_obj [OF assms] by (rule res_eq_same) (rule add_Inr_ok)

lemma mul_res_eq: "res_eq (mul a b) (mul b a)"
  unfolding mul_commute [of a b] by (rule res_eq_same) (rule mul_Inr_ok)

lemma FXP_new_cong:
  assumes "intg d = intg c" "frac d = frac c" "type d = type c" "opmode d = opmode c"
    "sat d = sat c" "rounding d = rounding c"
  shows "FXP_new v d = FXP_new v c"
  using assms by (simp add: FXP_new_def read_template_def)

text \<open>
  A count of the grid is stored as it is: under wraparound always, under saturation when
  the bounds are the exact ones (both widths below 31).
\<close>

lemma FXP_new_grid:
  assumes sb: "set_bounds (read_template FXP_default c) = Inr t"
    and wd: "intg c + frac c < 63" and ty: "type c \<noteq> d_FLOAT"
    and ik: "is_intkind (type c) \<longrightarrow> frac c = 0"
    and gn: "in_grid c n"
    and ex: "sat c \<longrightarrow> intg c < 31 \<and> frac c < 31"
  shows "FXP_new (Fin (of_int n / 2 ^ nat (frac c))) c = Inr (t\<lparr>raw_val := Fin (of_int n)\<rparr>)"
proof -
  have cfg: "intg t = intg c" "frac t = frac c" "type t = type c" "sat t = sat c"
    using set_bounds_config [OF sb] by simp_all
  have ty': "type (read_template FXP_default c) \<noteq> d_FLOAT" using ty by simp
  have wd': "intg (read_template FXP_default c) + frac (read_template FXP_default c) < 63"
    using wd by simp
  from set_bounds_obj [OF sb ty' wd'] obtain L U where fo: "fields_ok t" and
    pp: "pinf t = Fin (of_int U / 2 ^ nat (frac t))" and
    pn: "ninf t = Fin (of_int L / 2 ^ nat (frac t))" and
    Lv: "L = (if is_unsigned (type t) then 0 else - (2 ^ nat (intg t + frac t)))" and
    lb: "intg t < 31 \<and> frac t < 31 \<longrightarrow> 2 ^ nat (intg t + frac t) - 1 \<le> U"
    by blast
  have gt: "in_grid t n" using gn grid_config(2) [OF cfg(1,2,3)] by simp
  have ty_t: "type t \<noteq> d_FLOAT" and ik_t: "is_intkind (type t) \<longrightarrow> frac t = 0"
    using ty ik cfg by simp_all
  have sa: "saturate t (Fin (of_int n / 2 ^ nat (frac c))) = Fin (of_int n / 2 ^ nat (frac c))"
  proof (cases "sat c")
    case True
    with ex lb cfg have e: "2 ^ nat (intg c + frac c) - 1 \<le> U" by simp
    have "L \<le> n \<and> n \<le> 2 ^ nat (intg c + frac c) - 1"
      using gn Lv cfg by (cases "is_unsigned (type c)") (simp_all add: in_grid_def rep_count_def)
    with e have "L \<le> n" "n \<le> U" by linarith+
    then have "real_of_int L / 2 ^ nat (frac c) \<le> real_of_int n / 2 ^ nat (frac c)"
      "real_of_int n / 2 ^ nat (frac c) \<le> real_of_int U / 2 ^ nat (frac c)"
      by (simp_all add: div_pow2_mono)
    then show ?thesis using pp pn cfg(2) by (intro saturate_inside) simp_all
  next
    case False
    then show ?thesis using cfg(4) by (simp add: saturate_off)
  qed
  have st: "store t (saturate t (map_inf t (Fin (of_int n / 2 ^ nat (frac c)))))
              = Inr (t\<lparr>raw_val := Fin (of_int n)\<rparr>)"
    unfolding map_inf_Fin sa using store_grid [OF fo ty_t gt ik_t] cfg(2) by simp
  have "0 \<le> real_of_int n / 2 ^ nat (frac c) * real_of_int n"
    by (simp add: zero_le_mult_iff zero_le_divide_iff divide_le_0_iff)
  then have sg: "dle (Fin 0) (dmul (Fin (of_int n / 2 ^ nat (frac c)))
                   (raw_val (t\<lparr>raw_val := Fin (of_int n)\<rparr>)))"
    by simp
  show ?thesis using sb wd st sg by (rule FXP_new_eval)
qed

lemma in_grid_abs:
  assumes "in_grid c n"
  shows "- (2 ^ nat (intg c + frac c)) \<le> n \<and> n < 2 ^ nat (intg c + frac c)"
proof (cases "is_unsigned (type c)")
  case True
  have "- (2 ^ nat (intg c + frac c)) \<le> (0::int)" by simp
  with in_grid_unsigned [OF True assms] show ?thesis by linarith
next
  case False
  then show ?thesis using assms by (rule in_grid_signed)
qed

lemma align_exact:
  assumes "in_int64 n" "0 \<le> k" "k < 64" "\<bar>n * 2 ^ nat k\<bar> \<le> 2 ^ 53"
  shows "align (Fin (of_int n)) k = Inr (Fin (of_int (n * 2 ^ nat k)))"
proof -
  have "in_int64 (n * 2 ^ nat k)" using assms(4) by (auto simp: in_int64_def abs_le_iff)
  then have w: "wrap 64 (n * 2 ^ nat k) = n * 2 ^ nat k" by (rule wrap64_id)
  have "align (Fin (of_int n)) k = Inr (rd (of_int (n * 2 ^ nat k)))"
    using assms(1,2,3) by (simp add: align_def chk64_def shl64_def w del: of_int_mult of_int_power)
  then show ?thesis by (simp only: rd_int [OF assms(4)])
qed

lemma type_sub_signed: "\<not> is_unsigned (type_sub ta tb) \<and> type_sub ta tb \<noteq> d_FLOAT"
  by (simp add: type_sub_def is_unsigned_def)

lemma in_grid_mk_signed:
  assumes "\<not> is_unsigned t" "0 \<le> i + f" "- (2 * 2 ^ nat (i + f - 1)) < n" "n < 2 * 2 ^ nat (i + f - 1)"
    "1 \<le> i + f"
  shows "in_grid (mk_tuple i f t m s r) n"
proof -
  have "nat (i + f) = Suc (nat (i + f - 1))" using assms(5) by arith
  then have "(2::int) ^ nat (i + f) = 2 * 2 ^ nat (i + f - 1)" by simp
  then show ?thesis using assms(1,3,4) by (simp add: in_grid_def rep_count_def mk_tuple_def)
qed

text \<open>
  In \<open>FULL\<close> mode, for a result of at most 53 bits, the two operands are subtracted
  exactly: the two orders hand opposite values of the result grid to the constructor.
\<close>

lemma sub5_full_ge:
  assumes oa: "fields_ok a" "raw_val a = Fin (of_int na)" "in_grid a na"
    and ob: "fields_ok b" "raw_val b = Fin (of_int nb)" "in_grid b nb"
    and ta: "type a \<noteq> d_FLOAT" and tb: "type b \<noteq> d_FLOAT"
    and ge: "frac b \<le> frac a"
    and K: "fastmax (intg a) (intg b) + 1 + frac a \<le> 53"
  shows "\<exists>n. sub5 a b FULL s r =
           FXP_new (Fin (of_int n / 2 ^ nat (frac a)))
             (mk_tuple (fastmax (intg a) (intg b) + 1) (frac a) (type_sub (type a) (type b)) FULL s r) \<and>
         sub5 b a FULL s r =
           FXP_new (Fin (of_int (- n) / 2 ^ nat (frac a)))
             (mk_tuple (fastmax (intg a) (intg b) + 1) (frac a) (type_sub (type a) (type b)) FULL s r) \<and>
         in_grid (mk_tuple (fastmax (intg a) (intg b) + 1) (frac a) (type_sub (type a) (type b)) FULL s r) n \<and>
         in_grid (mk_tuple (fastmax (intg a) (intg b) + 1) (frac a) (type_sub (type a) (type b)) FULL s r) (- n)"
proof -
  define I where "I = fastmax (intg a) (intg b)"
  define d where "d = nat (frac a - frac b)"
  define P :: int where "P = 2 ^ nat (I + frac a)"
  define x where "x = nb * 2 ^ d"
  define n where "n = na - x"
  define cfg where "cfg = mk_tuple (I + 1) (frac a) (type_sub (type a) (type b)) FULL s r"
  have fa: "0 \<le> frac a" "0 \<le> intg a + frac a" and fb: "0 \<le> frac b" "0 \<le> intg b + frac b"
    using oa(1) ob(1) by (simp_all add: fields_ok_def)
  have sh: "shift a = Fin (2 ^ nat (frac a))" "shift b = Fin (2 ^ nat (frac b))"
    using oa(1) ob(1) by (simp_all add: fields_ok_def)
  have I: "intg a \<le> I" "intg b \<le> I" by (simp_all add: I_def fastmax_def)
  have I52: "nat (I + frac a) \<le> 52" using K unfolding I_def by arith
  have P52: "P \<le> 2 ^ 52" unfolding P_def using I52 by (rule pow2_mono)
  have Ppos: "0 < P" by (simp add: P_def)
  have "nat (intg a + frac a) \<le> nat (I + frac a)" using I(1) by arith
  then have Pa: "2 ^ nat (intg a + frac a) \<le> P" unfolding P_def by (rule pow2_mono)
  have bna: "- P \<le> na" "na < P" using in_grid_abs [OF oa(3)] Pa by linarith+
  have e: "nat (intg b + frac b) + d = nat (intg b + frac a)"
    unfolding d_def using fb ge by arith
  have "nat (intg b + frac a) \<le> nat (I + frac a)" using I(2) by arith
  then have "(2::int) ^ nat (intg b + frac a) \<le> P" unfolding P_def by (rule pow2_mono)
  then have Pb: "2 ^ nat (intg b + frac b) * 2 ^ d \<le> P"
    unfolding e [symmetric] by (simp add: power_add)
  define Q :: int where "Q = 2 ^ nat (intg b + frac b)"
  define D :: int where "D = 2 ^ d"
  have D0: "0 < D" by (simp add: D_def)
  have QD: "Q * D \<le> P" using Pb by (simp add: Q_def D_def)
  from in_grid_abs [OF ob(3)] have g: "- Q \<le> nb" "nb < Q" by (simp_all add: Q_def)
  have "(- Q) * D \<le> nb * D" using g(1) D0 by (intro mult_right_mono) simp_all
  then have l: "- (Q * D) \<le> nb * D" by simp
  have u: "nb * D < Q * D" using g(2) D0 by (intro mult_strict_right_mono)
  have bx: "- P \<le> x" "x < P" unfolding x_def D_def [symmetric] using l u QD by linarith+
  have ix: "\<bar>x\<bar> \<le> 2 ^ 53" using bx P52 by simp
  have inb: "in_int64 nb" using ob(1,3) by (rule grid_in_int64)
  have ina: "in_int64 na" using oa(1,3) by (rule grid_in_int64)
  have ra: "rd (of_int na) = Fin (of_int na)" using bna P52 by (intro rd_int) simp
  have rn: "rd (of_int n) = Fin (of_int n)" "rd (of_int (- n)) = Fin (of_int (- n))"
    using bna bx P52 unfolding n_def by (intro rd_int; simp)+
  have k: "0 \<le> frac a - frac b" "frac a - frac b < 64" using ge fb K [folded I_def] I fa by arith+
  have al: "align (raw_val b) (frac a - frac b) = Inr (Fin (of_int x))"
    unfolding ob(2) x_def d_def using inb k ix [unfolded x_def d_def] by (rule align_exact)
  have w: "add_sub_width a b FULL = (I + 1, frac a)" "add_sub_width b a FULL = (I + 1, frac a)"
    using ge by (simp_all add: add_sub_width_def I_def fastmax_def)
  have ts: "type_sub (type b) (type a) = type_sub (type a) (type b)"
    by (rule type_sub_commute)
  have nz: "(2::real) ^ nat (frac a) \<noteq> 0" by simp
  have r1: "rd (of_int na - of_int x) = Fin (of_int n)"
    using rn(1) by (simp add: n_def)
  have r2: "rd (of_int x - of_int na) = Fin (- of_int n)"
    using rn(2) by (simp add: n_def)
  have s1: "sub5 a b FULL s r = FXP_new (Fin (of_int n / 2 ^ nat (frac a))) cfg"
    using ta tb ge by (simp add: sub5_def al w oa(2) sh dsub_def r1 cfg_def)
  have s2: "sub5 b a FULL s r = FXP_new (Fin (of_int (- n) / 2 ^ nat (frac a))) cfg"
  proof (cases "frac a = frac b")
    case True
    then have "d = 0" by (simp add: d_def)
    then have xn: "x = nb" by (simp add: x_def)
    have "align (raw_val a) (frac b - frac a) = Inr (Fin (of_int na))"
      unfolding oa(2) using True align_zero [OF ina ra] by simp
    then show ?thesis
      using ta tb True sh
      by (simp add: sub5_def w oa(2) ob(2) dsub_def r2 [unfolded xn] cfg_def ts)
  next
    case False
    with ge have "\<not> frac a \<le> frac b" by simp
    then show ?thesis
      using ta tb by (simp add: sub5_def al w oa(2) sh r2 cfg_def ts)
  qed
  have ns: "\<not> is_unsigned (type_sub (type a) (type b))" using type_sub_signed by blast
  have sum: "0 \<le> I + 1 + frac a" "1 \<le> I + 1 + frac a" using I fa by arith+
  have P': "P = 2 ^ nat (I + 1 + frac a - 1)" by (simp add: P_def)
  have b1: "- (2 * P) < n" "n < 2 * P" using bna bx unfolding n_def by linarith+
  have b2: "- (2 * P) < - n" "- n < 2 * P" using bna bx unfolding n_def by linarith+
  have g1: "in_grid cfg n"
    unfolding cfg_def using ns sum(1) b1 [unfolded P'] sum(2) by (rule in_grid_mk_signed)
  have g2: "in_grid cfg (- n)"
    unfolding cfg_def using ns sum(1) b2 [unfolded P'] sum(2) by (rule in_grid_mk_signed)
  show ?thesis using s1 s2 g1 g2 unfolding cfg_def I_def by blast
qed

lemma sub5_full:
  assumes oa: "obj_ok a" and ob: "obj_ok b"
    and ta: "type a \<noteq> d_FLOAT" and tb: "type b \<noteq> d_FLOAT"
    and K: "fastmax (intg a) (intg b) + 1 + fastmax (frac a) (frac b) \<le> 53"
  shows "\<exists>n. sub5 a b FULL s r =
           FXP_new (Fin (of_int n / 2 ^ nat (fastmax (frac a) (frac b))))
             (mk_tuple (fastmax (intg a) (intg b) + 1) (fastmax (frac a) (frac b))
                (type_sub (type a) (type b)) FULL s r) \<and>
         sub5 b a FULL s r =
           FXP_new (Fin (of_int (- n) / 2 ^ nat (fastmax (frac a) (frac b))))
             (mk_tuple (fastmax (intg a) (intg b) + 1) (fastmax (frac a) (frac b))
                (type_sub (type a) (type b)) FULL s r) \<and>
         in_grid (mk_tuple (fastmax (intg a) (intg b) + 1) (fastmax (frac a) (frac b))
                (type_sub (type a) (type b)) FULL s r) n \<and>
         in_grid (mk_tuple (fastmax (intg a) (intg b) + 1) (fastmax (frac a) (frac b))
                (type_sub (type a) (type b)) FULL s r) (- n)"
proof -
  from obj_ok_nonfloat [OF oa ta] obtain na where
    a: "fields_ok a" "raw_val a = Fin (of_int na)" "in_grid a na" by blast
  from obj_ok_nonfloat [OF ob tb] obtain nb where
    b: "fields_ok b" "raw_val b = Fin (of_int nb)" "in_grid b nb" by blast
  show ?thesis
  proof (cases "frac b \<le> frac a")
    case True
    then have f: "fastmax (frac a) (frac b) = frac a" by (simp add: fastmax_def)
    from K have K': "fastmax (intg a) (intg b) + 1 + frac a \<le> 53" unfolding f .
    show ?thesis unfolding f by (rule sub5_full_ge [OF a b ta tb True K'])
  next
    case False
    then have le: "frac a \<le> frac b" by simp
    from False have f: "fastmax (frac a) (frac b) = frac b" by (simp add: fastmax_def)
    note i = fastmax_commute [of "intg b" "intg a"]
    note t = type_sub_commute [of "type b" "type a"]
    from K have K': "fastmax (intg b) (intg a) + 1 + frac b \<le> 53" unfolding f i .
    from sub5_full_ge [OF b a tb ta le K', of s r] obtain n where
      n: "sub5 b a FULL s r =
           FXP_new (Fin (of_int n / 2 ^ nat (frac b)))
             (mk_tuple (fastmax (intg a) (intg b) + 1) (frac b) (type_sub (type a) (type b)) FULL s r)"
        "sub5 a b FULL s r =
           FXP_new (Fin (of_int (- n) / 2 ^ nat (frac b)))
             (mk_tuple (fastmax (intg a) (intg b) + 1) (frac b) (type_sub (type a) (type b)) FULL s r)"
        "in_grid (mk_tuple (fastmax (intg a) (intg b) + 1) (frac b) (type_sub (type a) (type b)) FULL s r) n"
        "in_grid (mk_tuple (fastmax (intg a) (intg b) + 1) (frac b) (type_sub (type a) (type b)) FULL s r) (- n)"
      unfolding i t by blast
    have nn: "- (- n) = n" by simp
    show ?thesis unfolding f
      by (rule exI [of _ "- n"]) (simp only: nn n simp_thms)
  qed
qed

lemma sub5_Inr_cfg:
  assumes "sub5 a b m s r = Inr c"
  shows "\<exists>v. FXP_new v (mk_tuple (fst (add_sub_width a b m)) (snd (add_sub_width a b m))
                (if type a = d_FLOAT \<and> type b = d_FLOAT then d_FLOAT
                 else type_sub (type a) (type b)) m s r) = Inr c"
  using assms unfolding sub5_def ebind_Inr_iff split_beta
  by (auto split: if_splits simp: ebind_Inr_iff)

lemma mk_tuple_fields [simp]:
  "intg (mk_tuple i f t m s r) = i" "frac (mk_tuple i f t m s r) = f"
  "type (mk_tuple i f t m s r) = t" "opmode (mk_tuple i f t m s r) = m"
  "sat (mk_tuple i f t m s r) = s" "rounding (mk_tuple i f t m s r) = r"
  by (simp_all add: mk_tuple_def)

text \<open>
  Subtraction in \<open>FULL\<close> mode, for kinds other than \<open>d_FLOAT\<close> and a result of at most 53
  bits: when \<open>a - b\<close> returns, \<open>b - a\<close> returns too and its negation is the same object,
  provided the bounds of the result are the exact ones when saturation is on.
\<close>

lemma sub5_full_anti:
  assumes oa: "obj_ok a" and ob: "obj_ok b"
    and ta: "type a \<noteq> d_FLOAT" and tb: "type b \<noteq> d_FLOAT"
    and K: "fastmax (intg a) (intg b) + 1 + fastmax (frac a) (frac b) \<le> 53"
    and ex: "s \<longrightarrow> fastmax (intg a) (intg b) + 1 < 31 \<and> fastmax (frac a) (frac b) < 31"
    and ok: "sub5 a b FULL s r = Inr c"
  shows "\<exists>d. sub5 b a FULL s r = Inr d \<and> op_neg d = Inr c"
proof -
  define cfg where "cfg = mk_tuple (fastmax (intg a) (intg b) + 1) (fastmax (frac a) (frac b))
                (type_sub (type a) (type b)) FULL s r"
  have w: "add_sub_width a b FULL = (fastmax (intg a) (intg b) + 1, fastmax (frac a) (frac b))"
    by (simp add: add_sub_width_def)
  from sub5_Inr_cfg [OF ok] ta obtain v where v: "FXP_new v cfg = Inr c"
    unfolding w cfg_def by auto
  have ty: "type cfg \<noteq> d_FLOAT" "\<not> is_unsigned (type cfg)"
    using type_sub_signed [of "type a" "type b"] by (simp_all add: cfg_def)
  from quantize_Inr [OF v ty(1)] obtain t where
    sb: "set_bounds (read_template FXP_default cfg) = Inr t" and wd: "intg cfg + frac cfg < 63" and
    fo: "fields_ok t" and ik: "is_intkind (type t) \<longrightarrow> frac t = 0"
    by blast
  have c: "intg t = intg cfg" "frac t = frac cfg" "type t = type cfg" "opmode t = opmode cfg"
    "sat t = sat cfg" "rounding t = rounding cfg"
    using set_bounds_config [OF sb] by simp_all
  have ik': "is_intkind (type cfg) \<longrightarrow> frac cfg = 0" using ik c by simp
  have ex': "sat cfg \<longrightarrow> intg cfg < 31 \<and> frac cfg < 31" using ex by (simp add: cfg_def)
  from sub5_full [OF oa ob ta tb K, of s r] obtain n where
    s1: "sub5 a b FULL s r = FXP_new (Fin (of_int n / 2 ^ nat (frac cfg))) cfg" and
    s2: "sub5 b a FULL s r = FXP_new (Fin (of_int (- n) / 2 ^ nat (frac cfg))) cfg" and
    g1: "in_grid cfg n" and g2: "in_grid cfg (- n)"
    unfolding cfg_def mk_tuple_fields by blast
  note n1 = FXP_new_grid [OF sb wd ty(1) ik' g1 ex']
  note n2 = FXP_new_grid [OF sb wd ty(1) ik' g2 ex']
  define d where "d = t\<lparr>raw_val := Fin (of_int (- n))\<rparr>"
  have cv: "c = t\<lparr>raw_val := Fin (of_int n)\<rparr>" using ok s1 n1 by simp
  have sd: "sub5 b a FULL s r = Inr d" using s2 n2 by (simp add: d_def)
  have sh: "shift t = Fin (2 ^ nat (frac cfg))" using fo c by (simp add: fields_ok_def)
  have "val d = Fin (of_int (- n) / 2 ^ nat (frac cfg))"
    using ty(1) c(3) by (simp add: val_def d_def sh)
  then have nv: "dneg (val d) = Fin (of_int n / 2 ^ nat (frac cfg))" by simp
  have "op_neg d = FXP_new (Fin (of_int n / 2 ^ nat (frac cfg))) d"
    by (simp only: op_neg_def nv)
  also have "\<dots> = FXP_new (Fin (of_int n / 2 ^ nat (frac cfg))) cfg"
    by (rule FXP_new_cong) (simp_all add: d_def c)
  also have "\<dots> = Inr c" using n1 cv by simp
  finally show ?thesis using sd by blast
qed

lemma dneg_dsub: "dneg (dsub x y) = dsub y x"
  by (cases x; cases y) (simp_all add: dsub_def)

lemma dneg_dneg [simp]: "dneg (dneg x) = x"
  by (cases x) simp_all

lemma dneg_NaN [simp]: "dneg x = NaN \<longleftrightarrow> x = NaN"
  by (cases x) simp_all

lemma FXP_new_float:
  assumes sb: "set_bounds (read_template FXP_default c) = Inr t" and wd: "intg c + frac c < 63"
    and ty: "type c = d_FLOAT" and nn: "v \<noteq> NaN"
  shows "FXP_new v c = Inr (t\<lparr>raw_val := v\<rparr>)"
proof -
  have ty': "type (read_template FXP_default c) = d_FLOAT" using ty by simp
  note b = set_bounds_float [OF sb ty']
  have tt: "type t = d_FLOAT" using set_bounds_config [OF sb] ty by simp
  have st: "store t (saturate t (map_inf t v)) = Inr (t\<lparr>raw_val := v\<rparr>)"
    using tt by (simp add: float_passes_through b store_def)
  have sg: "dle (Fin 0) (dmul v (raw_val (t\<lparr>raw_val := v\<rparr>)))"
    using nn by (cases v) simp_all
  show ?thesis using sb wd st sg by (rule FXP_new_eval)
qed

text \<open>Two \<open>d_FLOAT\<close> operands are subtracted as doubles, in every mode.\<close>

lemma sub5_float_anti:
  assumes ta: "type a = d_FLOAT" and tb: "type b = d_FLOAT"
    and ok: "sub5 a b m s r = Inr c"
  shows "\<exists>d. sub5 b a m s r = Inr d \<and> op_neg d = Inr c"
proof -
  define cfg where "cfg = mk_tuple (fst (add_sub_width a b m)) (snd (add_sub_width a b m)) d_FLOAT m s r"
  define v where "v = binary64 (dsub (raw_val a) (raw_val b))"
  have w: "add_sub_width b a m = add_sub_width a b m" by (rule add_sub_width_commute)
  have nv: "binary64 (dsub (raw_val b) (raw_val a)) = dneg v"
    unfolding v_def binary64_dneg [symmetric] dneg_dsub ..
  have s1: "sub5 a b m s r = FXP_new v cfg"
    using ta tb by (simp add: sub5_def cfg_def v_def split_beta)
  have s2: "sub5 b a m s r = FXP_new (dneg v) cfg"
    using ta tb by (simp add: sub5_def cfg_def nv split_beta w)
  have ty: "type cfg = d_FLOAT" by (simp add: cfg_def)
  from ok s1 have n: "FXP_new v cfg = Inr c" by simp
  from quantize_float [OF n ty] obtain t where
    sb: "set_bounds (read_template FXP_default cfg) = Inr t" and wd: "intg cfg + frac cfg < 63" and
    cv: "c = t\<lparr>raw_val := v\<rparr>" and nn: "v \<noteq> NaN"
    by blast
  have c: "intg t = intg cfg" "frac t = frac cfg" "type t = type cfg" "opmode t = opmode cfg"
    "sat t = sat cfg" "rounding t = rounding cfg"
    using set_bounds_config [OF sb] by simp_all
  define d where "d = t\<lparr>raw_val := dneg v\<rparr>"
  have nn': "dneg v \<noteq> NaN" using nn by simp
  have sd: "sub5 b a m s r = Inr d"
    unfolding s2 d_def using sb wd ty nn' by (rule FXP_new_float)
  have "val d = dneg v" using c(3) ty by (simp add: val_def d_def)
  then have "op_neg d = FXP_new v d" by (simp add: op_neg_def)
  also have "\<dots> = FXP_new v cfg" by (rule FXP_new_cong) (simp_all add: d_def c)
  also have "\<dots> = Inr c" by (rule n)
  finally show ?thesis using sd by blast
qed

lemma var_1_new:
  "FXP_new (Fin (- 11.123456789)) (mk_tuple 30 10 d_FXP FULL False False) = Inr var_1"
  by (simp add: ctor_eval var_1_def)

lemma var_2_new:
  "FXP_new (Fin (- 11.123456789)) (mk_tuple 10 10 d_FXP FULL False False) = Inr var_2"
  by (simp add: ctor_eval var_2_def)


lemma sub_anti:
  assumes oa: "obj_ok a" and ob: "obj_ok b" and ck: "check_operands a b = Inr ()"
    and ex: "sub_exact a b" and ok: "sub a b = Inr c"
  shows "ebind (sub b a) op_neg = Inr c"
proof -
  from ck have c: "opmode a = opmode b" "sat a = sat b" "rounding a = rounding b"
    "type a = d_FLOAT \<longleftrightarrow> type b = d_FLOAT"
    by (simp_all add: check_operands_Inr)
  have ck': "check_operands b a = Inr ()" using ck check_operands_commute [of a b] by simp
  from ok ck have s1: "sub5 a b (opmode a) (sat a) (rounding a) = Inr c" by (simp add: sub_def)
  have s2: "sub b a = sub5 b a (opmode a) (sat a) (rounding a)"
    using ck' c by (simp add: sub_def)
  have "\<exists>d. sub5 b a (opmode a) (sat a) (rounding a) = Inr d \<and> op_neg d = Inr c"
  proof (cases "type a = d_FLOAT")
    case True
    with c(4) have tb: "type b = d_FLOAT" by simp
    show ?thesis using True tb s1 by (rule sub5_float_anti)
  next
    case False
    with c(4) have tb: "type b \<noteq> d_FLOAT" by simp
    from ex False have m: "opmode a = FULL" and
      K: "fastmax (intg a) (intg b) + 1 + fastmax (frac a) (frac b) \<le> 53" and
      e: "sat a \<longrightarrow> fastmax (intg a) (intg b) + 1 < 31 \<and> fastmax (frac a) (frac b) < 31"
      by (simp_all add: sub_exact_def)
    show ?thesis using oa ob False tb K e s1 [unfolded m] unfolding m by (rule sub5_full_anti)
  qed
  then show ?thesis unfolding s2 by auto
qed

lemma sub_exact_commute:
  assumes "check_operands a b = Inr ()" "sub_exact a b"
  shows "sub_exact b a"
  using assms fastmax_commute [of "intg a" "intg b"] fastmax_commute [of "frac a" "frac b"]
  by (auto simp: check_operands_Inr sub_exact_def)

lemma obj_ok_sum_1_2: "obj_ok sum_1_2"
  by (simp add: obj_ok_def sum_1_2_def fields_ok_def in_grid_def rep_count_def is_unsigned_def)

lemma obj_ok_var_2: "obj_ok var_2"
  by (simp add: obj_ok_def var_2_def fields_ok_def in_grid_def rep_count_def is_unsigned_def)

lemma add_var_1_var_2: "add var_1 var_2 = Inr sum_1_2"
  by (simp add: ctor_eval op_eval var_1_def var_2_def sum_1_2_def)

lemma sub_sum_1_2_var_2: "sub sum_1_2 var_2 = Inr diff_sum_2"
  by (simp add: ctor_eval op_eval var_2_def sum_1_2_def diff_sum_2_def)

text \<open>
  Beyond 53 bits the difference itself rounds: \<open>top_53 - bottom_53\<close> is \<open>2 ^ 54 - 1\<close>, which
  rounds to \<open>2 ^ 54\<close>, one beyond the grid of the result, and wraps to the opposite sign,
  while \<open>bottom_53 - top_53\<close> rounds to \<open>- 2 ^ 54\<close>, a count of the grid.
\<close>

lemma rd_2_54_minus_1: "rd 18014398509481983 = Fin 18014398509481984"
  using rd_pow2m1 [of 54] by simp

lemma rd_2_54_minus_1_neg: "rd (- 18014398509481983) = Fin (- 18014398509481984)"
  using rd_minus [of 18014398509481983] by (simp add: rd_2_54_minus_1)

lemma top_bottom_53_new:
  "FXP_new (Fin 9007199254740991) (mk_tuple 53 0 d_INT FULL False False) = Inr top_53"
  "FXP_new (Fin (- 9007199254740992)) (mk_tuple 53 0 d_INT FULL False False) = Inr bottom_53"
  by (simp_all add: ctor_eval top_53_def bottom_53_def Let_def)

lemma sub_top_bottom_53:
  "sub top_53 bottom_53 = Inl AssertSignChange"
  "sub bottom_53 top_53 =
     Inr \<lparr>intg = 54, frac = 0, type = d_FXP, opmode = FULL, sat = False, rounding = False,
          raw_val = Fin (- 18014398509481984), pinf = Fin 18014398509481984,
          ninf = Fin (- 18014398509481984), shift = Fin 1,
          full = 36028797018963968, half = 18014398509481984\<rparr>"
  by (simp_all add: ctor_eval op_eval top_53_def bottom_53_def rd_2_54_minus_1 rd_2_54_minus_1_neg)

text \<open>
  C9. The claim: \<open>a - b == - (b - a)\<close> for every compatible pair. In \<open>FIXEDFRAC\<close> mode the
  difference keeps the narrower fraction, and the constructor floors it: for the driver's
  \<open>var_3\<close> (-11.125, 5 fractional bits) and \<open>var_4\<close> (39.5, 1 fractional bit) the exact
  difference -50.625 becomes -51, while 50.625 becomes 50.5 and its negation -50.5.
\<close>

theorem sub_var_3_var_4_not_anticommutative:
  "check_operands var_3 var_4 = Inr () \<and>
   sub var_3 var_4 = Inr diff_3_4 \<and> ebind (sub var_4 var_3) op_neg = Inr neg_diff_4_3 \<and>
   val diff_3_4 = Fin (- 51) \<and> val neg_diff_4_3 = Fin (- 101 / 2) \<and>
   \<not> op_eq diff_3_4 neg_diff_4_3 \<and>
   \<not> res_eq (sub var_3 var_4) (ebind (sub var_4 var_3) op_neg)"
  unfolding sub_var_3_var_4 neg_sub_var_4_var_3
  by (simp add: res_eq_def op_eq_def val_def deq_def diff_3_4_def neg_diff_4_3_def
        check_operands_def var_3_def var_4_def)

text \<open>
  C9, amended. For every compatible pair of objects of the library (\<open>obj_ok\<close>):
  \<open>a + b\<close> and \<open>b + a\<close> are the same outcome, and so are \<open>a * b\<close> and \<open>b * a\<close>; where
  subtraction is exact (\<open>sub_exact\<close>: two \<open>d_FLOAT\<close> operands, or \<open>FULL\<close> mode with a result
  of at most 53 bits and, under saturation, both widths of the result below 31), \<open>a - b\<close>
  returns exactly when \<open>b - a\<close> does, and then \<open>- (b - a)\<close> returns the same object, which
  \<open>operator==\<close> accepts.
\<close>

theorem add_mul_commute_sub_anticommute:
  assumes "obj_ok a" "obj_ok b" "check_operands a b = Inr ()"
  shows "add a b = add b a \<and> res_eq (add a b) (add b a) \<and>
         mul a b = mul b a \<and> res_eq (mul a b) (mul b a) \<and>
         (sub_exact a b \<longrightarrow>
            ((\<exists>c. sub a b = Inr c) \<longleftrightarrow> (\<exists>d. sub b a = Inr d)) \<and>
            (\<forall>c. sub a b = Inr c \<longrightarrow>
                 ebind (sub b a) op_neg = Inr c \<and> res_eq (sub a b) (ebind (sub b a) op_neg)))"
proof -
  have ck': "check_operands b a = Inr ()"
    using assms(3) check_operands_commute [of a b] by simp
  have s: "(\<exists>c. sub a b = Inr c) \<longleftrightarrow> (\<exists>d. sub b a = Inr d)" if ex: "sub_exact a b"
  proof
    assume "\<exists>c. sub a b = Inr c"
    then obtain c where "sub a b = Inr c" by blast
    from sub_anti [OF assms ex this] show "\<exists>d. sub b a = Inr d"
      by (cases "sub b a") simp_all
  next
    assume "\<exists>d. sub b a = Inr d"
    then obtain d where "sub b a = Inr d" by blast
    from sub_anti [OF assms(2,1) ck' sub_exact_commute [OF assms(3) ex] this]
    show "\<exists>c. sub a b = Inr c"
      by (cases "sub a b") simp_all
  qed
  have n: "ebind (sub b a) op_neg = Inr c \<and> res_eq (sub a b) (ebind (sub b a) op_neg)"
    if ex: "sub_exact a b" and ok: "sub a b = Inr c" for c
  proof -
    note e = sub_anti [OF assms ex ok]
    have "op_eq c c" using sub_Inr_ok [OF ok] by (rule op_eq_refl)
    then show ?thesis by (simp add: e ok res_eq_def)
  qed
  from s n have sub: "sub_exact a b \<longrightarrow>
            ((\<exists>c. sub a b = Inr c) \<longleftrightarrow> (\<exists>d. sub b a = Inr d)) \<and>
            (\<forall>c. sub a b = Inr c \<longrightarrow>
                 ebind (sub b a) op_neg = Inr c \<and> res_eq (sub a b) (ebind (sub b a) op_neg))"
    by blast
  note a = add_commute_obj [OF assms(1,2)]
  note ar = add_res_eq [OF assms(1,2)]
  note m = mul_commute [of a b]
  note mr = mul_res_eq [of a b]
  show ?thesis by (intro conjI a ar m mr sub)
qed

theorem add_mul_commute_sub_anticommute_witness:
  "obj_ok sum_1_2 \<and> obj_ok var_2 \<and> check_operands sum_1_2 var_2 = Inr () \<and>
   sub_exact sum_1_2 var_2 \<and>
   add var_1 var_2 = Inr sum_1_2 \<and>
   add sum_1_2 var_2 = add var_2 sum_1_2 \<and> mul sum_1_2 var_2 = mul var_2 sum_1_2 \<and>
   sub sum_1_2 var_2 = Inr diff_sum_2 \<and>
   ebind (sub var_2 sum_1_2) op_neg = Inr diff_sum_2 \<and>
   val diff_sum_2 = val var_1"
proof -
  have ck: "check_operands sum_1_2 var_2 = Inr ()"
    by (simp add: check_operands_def sum_1_2_def var_2_def)
  have ex: "sub_exact sum_1_2 var_2"
    by (simp add: sub_exact_def fastmax_def sum_1_2_def var_2_def)
  note t = add_mul_commute_sub_anticommute [OF obj_ok_sum_1_2 obj_ok_var_2 ck]
  from t have a: "add sum_1_2 var_2 = add var_2 sum_1_2" by blast
  from t have m: "mul sum_1_2 var_2 = mul var_2 sum_1_2" by blast
  from t ex sub_sum_1_2_var_2 have n: "ebind (sub var_2 sum_1_2) op_neg = Inr diff_sum_2"
    by blast
  have v: "val diff_sum_2 = val var_1"
    by (simp add: val_def diff_sum_2_def var_1_def)
  show ?thesis
    by (intro conjI obj_ok_sum_1_2 obj_ok_var_2 ck ex add_var_1_var_2 a m sub_sum_1_2_var_2 n v)
qed

end
